theory Spec2Isabelle
  imports Main "HOL-Library.Sublist"
begin

section \<open>The commit graph\<close>

text \<open>
  The rebase utilities of the tree DDS (\<^verbatim>\<open>core/rebase/utils.ts\<close>) work on commits
  that are JavaScript objects: they are compared by identity (\<^verbatim>\<open>===\<close>, \<^verbatim>\<open>Object.is\<close>,
  membership in a \<^verbatim>\<open>Set\<close>) and linked through their \<^verbatim>\<open>parent\<close> field. A commit is
  therefore a reference into an explicit store. The store is a list, a reference is an
  index into it, and creating an object appends to the list.
\<close>

type_synonym RevisionTag = nat
type_synonym SessionId = string
type_synonym ref = nat

record 'c GraphCommit =
  revision :: RevisionTag
  sessionId :: SessionId
  change :: 'c
  parent :: "ref option"

text \<open>
  Modelled from the spec: \<^verbatim>\<open>TaggedChange\<close> is declared in \<^verbatim>\<open>changeRebaser.ts\<close>, which
  is not among the sources. It pairs a change with the revision it comes from, and marks a
  rollback inverse with the revision it undoes.
\<close>

record 'c TaggedChange =
  tRevision :: "RevisionTag option"
  tRollbackOf :: "RevisionTag option"
  tChange :: 'c

datatype error =
    AssertionFailed string
  | TypeError
  | InvalidReference
  | AlgebraError nat

text \<open>
  Modelled from the spec: the \<^verbatim>\<open>ChangeRebaser\<close> interface, also declared in
  \<^verbatim>\<open>changeRebaser.ts\<close>. Its three operations are pure; each may throw, which is the
  \<open>Inl\<close> result.
\<close>

record 'c ChangeRebaser =
  rebase :: "'c \<Rightarrow> 'c TaggedChange \<Rightarrow> error + 'c"
  invert :: "'c TaggedChange \<Rightarrow> bool \<Rightarrow> error + 'c"
  compose :: "'c TaggedChange list \<Rightarrow> error + 'c"

record 'c state =
  heap :: "'c GraphCommit list"
  nextTag :: RevisionTag

text \<open>A commit read through the \<^verbatim>\<open>TaggedChange\<close> interface: its revision and its change.\<close>

definition asTagged :: "'c GraphCommit \<Rightarrow> 'c TaggedChange" where
  "asTagged c = \<lparr>tRevision = Some (revision c), tRollbackOf = None, tChange = change c\<rparr>"

text \<open>An object literal: the new commit is appended to the store and its reference returned.\<close>

definition alloc :: "'c state \<Rightarrow> 'c GraphCommit \<Rightarrow> 'c state \<times> ref" where
  "alloc s c = (s\<lparr>heap := heap s @ [c]\<rparr>, length (heap s))"

text \<open>
  Modelled from the spec: \<^verbatim>\<open>mintCommit\<close>, \<^verbatim>\<open>mintRevisionTag\<close> and
  \<^verbatim>\<open>tagRollbackInverse\<close> are imported from \<^verbatim>\<open>types.ts\<close> and \<^verbatim>\<open>changeRebaser.ts\<close>,
  which are not among the sources. \<^verbatim>\<open>mintCommit\<close> copies revision, session id and change
  of a commit onto a new parent; \<^verbatim>\<open>mintRevisionTag\<close> issues a fresh tag at each call (a
  counter here); \<^verbatim>\<open>tagRollbackInverse\<close> wraps an inverse with the revision it undoes.
\<close>

definition mintCommit :: "'c state \<Rightarrow> ref \<Rightarrow> 'c GraphCommit \<Rightarrow> 'c state \<times> ref" where
  "mintCommit s p c =
     alloc s \<lparr>revision = revision c, sessionId = sessionId c, change = change c, parent = Some p\<rparr>"

definition mintRevisionTag :: "'c state \<Rightarrow> 'c state \<times> RevisionTag" where
  "mintRevisionTag s = (s\<lparr>nextTag := Suc (nextTag s)\<rparr>, nextTag s)"

definition tagRollbackInverse :: "'c \<Rightarrow> RevisionTag \<Rightarrow> RevisionTag \<Rightarrow> 'c TaggedChange" where
  "tagRollbackInverse inverseChange newTag rolledBack =
     \<lparr>tRevision = Some newTag, tRollbackOf = Some rolledBack, tChange = inverseChange\<rparr>"

section \<open>findCommonAncestor\<close>

text \<open>\<^verbatim>\<open>Array.prototype.findIndex\<close>: the first index whose element passes, or \<open>-1\<close>.\<close>

fun findIndex :: "('a \<Rightarrow> bool) \<Rightarrow> 'a list \<Rightarrow> int" where
  "findIndex P [] = - 1"
| "findIndex P (x # xs) =
     (if P x then 0 else (let i = findIndex P xs in if i = - 1 then - 1 else i + 1))"

text \<open>
  One half of the loop body, which the source writes twice, once for \<open>a\<close> and once for
  \<open>b\<close>: \<open>cur\<close> is the walker, \<open>own\<close> its path and \<open>other\<close> the path of the other walker.
  It returns (\<open>Inl\<close>) when \<open>cur\<close> has been visited, after \<^verbatim>\<open>other.splice(0, index + 1)\<close>;
  else it records \<open>cur\<close>, puts it in front of its path and steps to the parent. Reading
  the parent of a reference outside the store cannot happen in JavaScript; the model
  stops with \<open>InvalidReference\<close>.
\<close>

definition visit ::
  "'c GraphCommit list \<Rightarrow> ref option \<Rightarrow> ref set \<Rightarrow> ref list \<Rightarrow> ref list \<Rightarrow>
     (error + ref \<times> ref list \<times> ref list) + (ref option \<times> ref set \<times> ref list)" where
  "visit h cur visited own other =
     (case cur of
        None \<Rightarrow> Inr (None, visited, own)
      | Some x \<Rightarrow>
          if x \<in> visited
          then Inl (Inr (x, own, drop (nat (findIndex (\<lambda>r. r = x) other + 1)) other))
          else if length h \<le> x then Inl (Inl InvalidReference)
          else Inr (parent (h ! x), insert x visited, x # own))"

text \<open>
  The body of the \<^verbatim>\<open>while\<close> loop: the half for \<open>a\<close>, then the half for \<open>b\<close>. The result
  is \<open>Inl\<close> when the function returns or throws, \<open>Inr\<close> with the next loop state otherwise.
\<close>

type_synonym walk = "ref option \<times> ref option \<times> ref set \<times> ref list \<times> ref list"

definition fcaBody ::
  "'c GraphCommit list \<Rightarrow> walk \<Rightarrow> (error + ref option \<times> ref list \<times> ref list) + walk" where
  "fcaBody h w =
     (case w of (a, b, visited, pathA, pathB) \<Rightarrow>
        if a \<noteq> None \<or> b \<noteq> None then
          (case visit h a visited pathA pathB of
             Inl (Inl e) \<Rightarrow> Inl (Inl e)
           | Inl (Inr (x, own, other)) \<Rightarrow> Inl (Inr (Some x, own, other))
           | Inr (a', visited', pathA') \<Rightarrow>
               (case visit h b visited' pathB pathA' of
                  Inl (Inl e) \<Rightarrow> Inl (Inl e)
                | Inl (Inr (y, own, other)) \<Rightarrow> Inl (Inr (Some y, other, own))
                | Inr (b', visited'', pathB') \<Rightarrow> Inr (a', b', visited'', pathA', pathB')))
        else Inl (Inr (None, [], [])))"

definition unvisited :: "'c GraphCommit list \<Rightarrow> walk \<Rightarrow> nat" where
  "unvisited h w = (case w of (a, b, visited, pathA, pathB) \<Rightarrow> card ({..<length h} - visited))"

function fcaLoop ::
  "'c GraphCommit list \<Rightarrow> walk \<Rightarrow> error + ref option \<times> ref list \<times> ref list" where
  "fcaLoop h w = (case fcaBody h w of Inl r \<Rightarrow> r | Inr w' \<Rightarrow> fcaLoop h w')"
  by pat_completeness auto
termination
proof (relation "measure (\<lambda>(h, w). unvisited h w)")
  show "wf (measure (\<lambda>(h :: 'c GraphCommit list, w). unvisited h w))"
    by simp
next
  fix h :: "'c GraphCommit list" and w w' :: walk
  assume body: "fcaBody h w = Inr w'"
  have grows: "visited \<subseteq> visited'"
    if "visit h cur visited own other = Inr (cur', visited', own')"
    for cur visited own other cur' visited' own'
    using that by (auto simp: visit_def split: option.splits if_splits)
  have fresh: "\<exists>x. x < length h \<and> x \<notin> visited \<and> x \<in> visited'"
    if "visit h cur visited own other = Inr (cur', visited', own')" and "cur \<noteq> None"
    for cur visited own other cur' visited' own'
    using that by (cases cur) (auto simp: visit_def not_le split: if_splits intro!: exI)
  obtain a b visited pathA pathB where w: "w = (a, b, visited, pathA, pathB)"
    by (cases w) auto
  from body w obtain a' v1 pathA' b' v2 pathB' where
    ne: "a \<noteq> None \<or> b \<noteq> None" and
    va: "visit h a visited pathA pathB = Inr (a', v1, pathA')" and
    vb: "visit h b v1 pathB pathA' = Inr (b', v2, pathB')" and
    w': "w' = (a', b', v2, pathA', pathB')"
    by (auto simp: fcaBody_def split: if_splits sum.splits prod.splits)
  have sub: "visited \<subseteq> v1" "v1 \<subseteq> v2"
    using grows[OF va] grows[OF vb] by auto
  have "\<exists>x. x < length h \<and> x \<notin> visited \<and> x \<in> v2"
  proof (cases "a = None")
    case False
    then show ?thesis using fresh[OF va] sub by blast
  next
    case True
    with ne have "b \<noteq> None" by simp
    then show ?thesis using fresh[OF vb] sub by blast
  qed
  then have "{..<length h} - v2 \<subset> {..<length h} - visited"
    using sub by auto
  then have "card ({..<length h} - v2) < card ({..<length h} - visited)"
    by (intro psubset_card_mono) auto
  then show "((h, w'), (h, w)) \<in> measure (\<lambda>(h, w). unvisited h w)"
    by (simp add: unvisited_def w w')
qed

declare fcaLoop.simps [simp del]

text \<open>
  \<^verbatim>\<open>findCommonAncestor\<close>. A descendant is a commit or \<^verbatim>\<open>undefined\<close>, together with
  its out-path. The out-paths are optional in the source and do not influence what is
  returned: a caller that passes a bare commit is modelled as passing an empty path and
  ignoring it in the result.
\<close>

definition findCommonAncestor ::
  "'c GraphCommit list \<Rightarrow> ref option \<times> ref list \<Rightarrow> ref option \<times> ref list \<Rightarrow>
     error + ref option \<times> ref list \<times> ref list" where
  "findCommonAncestor h descendantA descendantB =
     (case (descendantA, descendantB) of ((a, pathA), (b, pathB)) \<Rightarrow>
        if pathA \<noteq> [] then Inl (AssertionFailed ''0x578'')
        else if pathB \<noteq> [] then Inl (AssertionFailed ''0x579'')
        else if a = b then Inr (a, pathA, pathB)
        else fcaLoop h (a, b, {}, pathA, pathB))"

section \<open>rebaseBranch\<close>

record RebasedCommits =
  newBase :: ref
  deletedSourceCommits :: "ref list"
  newSourceCommits :: "ref list"

text \<open>
  The scan of the target path for commits whose revision is also on the source branch
  (lines 152 to 160): \<open>i\<close> is the loop index and the list what is left of
  \<^verbatim>\<open>targetPath\<close> from \<open>i\<close> on. It returns the source set and \<^verbatim>\<open>newBaseIndex\<close>.
\<close>

fun scanTargetPath ::
  "'c GraphCommit list \<Rightarrow> nat \<Rightarrow> ref list \<Rightarrow> nat \<Rightarrow> RevisionTag set \<Rightarrow> nat \<Rightarrow>
     RevisionTag set \<times> nat" where
  "scanTargetPath h targetCommitIndex [] i sourceSet newBaseIndex = (sourceSet, newBaseIndex)"
| "scanTargetPath h targetCommitIndex (t # rest) i sourceSet newBaseIndex =
     (if revision (h ! t) \<in> sourceSet
      then scanTargetPath h targetCommitIndex rest (Suc i)
             (sourceSet - {revision (h ! t)}) (max newBaseIndex i)
      else if targetCommitIndex \<le> i then (sourceSet, newBaseIndex)
      else scanTargetPath h targetCommitIndex rest (Suc i) sourceSet newBaseIndex)"

text \<open>
  The loop that removes the common leading range (lines 171 to 177). It runs
  \<^verbatim>\<open>minLength\<close> times and compares the two first elements each time; reading the
  revision of the first element of an empty array would be a \<^verbatim>\<open>TypeError\<close>.
\<close>

fun stripCommonPrefix ::
  "'c GraphCommit list \<Rightarrow> nat \<Rightarrow> ref list \<Rightarrow> ref list \<Rightarrow> error + ref list \<times> ref list" where
  "stripCommonPrefix h 0 sourcePath targetRebasePath = Inr (sourcePath, targetRebasePath)"
| "stripCommonPrefix h (Suc n) sourcePath targetRebasePath =
     (case (sourcePath, targetRebasePath) of
        (x # xs, y # ys) \<Rightarrow>
          if revision (h ! x) = revision (h ! y)
          then stripCommonPrefix h n xs ys
          else stripCommonPrefix h n sourcePath targetRebasePath
      | _ \<Rightarrow> Inl TypeError)"

text \<open>
  The re-parenting loop of the fast path (lines 184 to 188):
  \<^verbatim>\<open>newSourceCommits[newSourceCommits.length - 1] ?? newBase\<close> is the last new commit, or
  the new base when there is none yet.
\<close>

fun reparent :: "'c state \<Rightarrow> ref \<Rightarrow> ref list \<Rightarrow> ref list \<Rightarrow> 'c state \<times> ref list" where
  "reparent s base [] new = (s, new)"
| "reparent s base (c # cs) new =
     (case mintCommit s (if new = [] then base else last new) (heap s ! c) of
        (s', m) \<Rightarrow> reparent s' base cs (new @ [m]))"

text \<open>\<^verbatim>\<open>rebaseChangeOverChanges\<close>: a left fold of \<^verbatim>\<open>rebase\<close>, stopped by the first throw.\<close>

fun rebaseChangeOverChanges ::
  "'c ChangeRebaser \<Rightarrow> 'c \<Rightarrow> 'c TaggedChange list \<Rightarrow> error + 'c" where
  "rebaseChangeOverChanges changeRebaser a [] = Inr a"
| "rebaseChangeOverChanges changeRebaser a (b # bs) =
     (case rebase changeRebaser a b of
        Inl e \<Rightarrow> Inl e
      | Inr a' \<Rightarrow> rebaseChangeOverChanges changeRebaser a' bs)"

text \<open>
  \<^verbatim>\<open>inverseFromCommit\<close>; \<^verbatim>\<open>rebaseBranch\<close> has the same expression inline at line 220.
  The arguments are evaluated in order: \<^verbatim>\<open>invert\<close> first, then \<^verbatim>\<open>mintRevisionTag\<close>.
\<close>

definition inverseFromCommit ::
  "'c ChangeRebaser \<Rightarrow> 'c state \<Rightarrow> 'c GraphCommit \<Rightarrow> 'c state \<times> (error + 'c TaggedChange)" where
  "inverseFromCommit changeRebaser s c =
     (case invert changeRebaser (asTagged c) True of
        Inl e \<Rightarrow> (s, Inl e)
      | Inr undo \<Rightarrow>
          (case mintRevisionTag s of
             (s', tag) \<Rightarrow> (s', Inr (tagRollbackInverse undo tag (revision c)))))"

text \<open>
  The loop over the source commits (lines 204 to 222). The target rebase path is only
  handed to the algebra from here on, so the loop keeps it as tagged changes; the object
  \<^verbatim>\<open>{...c, change}\<close> pushed onto it is never compared nor returned and is kept as a value.
\<close>

fun rebaseLoop ::
  "'c ChangeRebaser \<Rightarrow> RevisionTag set \<Rightarrow> 'c state \<Rightarrow> ref list \<Rightarrow> ref \<Rightarrow>
     'c TaggedChange list \<Rightarrow> 'c TaggedChange list \<Rightarrow> ref list \<Rightarrow>
     'c state \<times> (error + ref \<times> 'c TaggedChange list \<times> 'c TaggedChange list \<times> ref list)" where
  "rebaseLoop changeRebaser sourceSet s [] newHead inverses targetRebasePath new =
     (s, Inr (newHead, inverses, targetRebasePath, new))"
| "rebaseLoop changeRebaser sourceSet s (r # rest) newHead inverses targetRebasePath new =
     (let c = heap s ! r in
      if revision c \<in> sourceSet then
        (case rebaseChangeOverChanges changeRebaser (change c) (inverses @ targetRebasePath) of
           Inl e \<Rightarrow> (s, Inl e)
         | Inr chg \<Rightarrow>
             (case alloc s \<lparr>revision = revision c, sessionId = sessionId c, change = chg,
                           parent = Some newHead\<rparr> of
                (s1, newHead') \<Rightarrow>
                  (case inverseFromCommit changeRebaser s1 c of
                     (s2, Inl e) \<Rightarrow> (s2, Inl e)
                   | (s2, Inr undo) \<Rightarrow>
                       rebaseLoop changeRebaser sourceSet s2 rest newHead' (undo # inverses)
                         (targetRebasePath @
                            [\<lparr>tRevision = Some (revision c), tRollbackOf = None, tChange = chg\<rparr>])
                         (new @ [newHead']))))
      else
        (case inverseFromCommit changeRebaser s c of
           (s2, Inl e) \<Rightarrow> (s2, Inl e)
         | (s2, Inr undo) \<Rightarrow>
             rebaseLoop changeRebaser sourceSet s2 rest newHead (undo # inverses)
               targetRebasePath new))"

text \<open>
  \<^verbatim>\<open>rebaseBranch\<close> (lines 112 to 233). The result is the state after the call and either
  the exception thrown or the returned triple. The paths hold references that the walk of
  \<^verbatim>\<open>findCommonAncestor\<close> has read, so they are in the store; \<^verbatim>\<open>newBaseIndex\<close> is an index
  of \<^verbatim>\<open>targetPath\<close>, and \<^verbatim>\<open>newSourceCommits\<close> starts with the target rebase path, which is
  not empty (lemmas \<open>scanTargetPath_bounds\<close> and \<open>reparent_new\<close> below). The overload
  without \<^verbatim>\<open>targetHead\<close> is the call with the target commit as target head.
\<close>

definition rebaseBranch ::
  "'c ChangeRebaser \<Rightarrow> 'c state \<Rightarrow> ref \<Rightarrow> ref \<Rightarrow> ref \<Rightarrow>
     'c state \<times> (error + ref \<times> 'c option \<times> RebasedCommits)" where
  "rebaseBranch changeRebaser s sourceHead targetCommit targetHead =
     (case findCommonAncestor (heap s) (Some sourceHead, []) (Some targetHead, []) of
        Inl e \<Rightarrow> (s, Inl e)
      | Inr (None, sourcePath, targetPath) \<Rightarrow>
          (s, Inl (AssertionFailed ''branches must be related''))
      | Inr (Some ancestor, sourcePath, targetPath) \<Rightarrow>
          let targetCommitIndex = findIndex (\<lambda>r. r = targetCommit) targetPath in
          if targetCommitIndex = - 1 then
            (case findCommonAncestor (heap s) (Some targetCommit, []) (Some targetHead, []) of
               Inl e \<Rightarrow> (s, Inl e)
             | Inr (None, _, _) \<Rightarrow>
                 (s, Inl (AssertionFailed ''target commit is not in target branch''))
             | Inr (Some _, _, _) \<Rightarrow>
                 (s, Inr (sourceHead, None,
                    \<lparr>newBase = ancestor, deletedSourceCommits = [], newSourceCommits = []\<rparr>)))
          else
            (case scanTargetPath (heap s) (nat targetCommitIndex) targetPath 0
                    (set (map (\<lambda>r. revision (heap s ! r)) sourcePath)) (nat targetCommitIndex) of
               (sourceSet, newBaseIndex) \<Rightarrow>
                 let base = targetPath ! newBaseIndex;
                     targetRebasePath = take (newBaseIndex + 1) targetPath
                 in
                 (case stripCommonPrefix (heap s)
                         (min (length sourcePath) (length targetRebasePath))
                         sourcePath targetRebasePath of
                    Inl e \<Rightarrow> (s, Inl e)
                  | Inr (sourcePath', targetRebasePath') \<Rightarrow>
                      if targetRebasePath' = [] then
                        (case reparent s base sourcePath' targetRebasePath of
                           (s', new) \<Rightarrow>
                             (s', Inr (last new, None,
                                \<lparr>newBase = base, deletedSourceCommits = sourcePath,
                                 newSourceCommits = new\<rparr>)))
                      else
                        (case rebaseLoop changeRebaser sourceSet s sourcePath' base []
                                (map (\<lambda>r. asTagged (heap s ! r)) targetRebasePath')
                                targetRebasePath of
                           (s', Inl e) \<Rightarrow> (s', Inl e)
                         | (s', Inr (newHead, inverses, rebasedPath, new)) \<Rightarrow>
                             (case compose changeRebaser (inverses @ rebasedPath) of
                                Inl e \<Rightarrow> (s', Inl e)
                              | Inr sourceChange \<Rightarrow>
                                  (s', Inr (newHead, Some sourceChange,
                                     \<lparr>newBase = base, deletedSourceCommits = sourcePath,
                                      newSourceCommits = new\<rparr>)))))))"

section \<open>rebaseChange\<close>

text \<open>
  The \<^verbatim>\<open>reduceRight\<close> of lines 256 to 260: from the last commit of the source path back
  to the first, the change is rebased over the rollback inverse of the commit.
\<close>

fun rebaseOverInverses ::
  "'c ChangeRebaser \<Rightarrow> 'c GraphCommit list \<Rightarrow> 'c state \<Rightarrow> 'c \<Rightarrow> ref list \<Rightarrow>
     'c state \<times> (error + 'c)" where
  "rebaseOverInverses changeRebaser h s newChange [] = (s, Inr newChange)"
| "rebaseOverInverses changeRebaser h s newChange (r # rest) =
     (case inverseFromCommit changeRebaser s (h ! r) of
        (s', Inl e) \<Rightarrow> (s', Inl e)
      | (s', Inr undo) \<Rightarrow>
          (case rebase changeRebaser newChange undo of
             Inl e \<Rightarrow> (s', Inl e)
           | Inr c \<Rightarrow> rebaseOverInverses changeRebaser h s' c rest))"

definition rebaseChange ::
  "'c ChangeRebaser \<Rightarrow> 'c state \<Rightarrow> 'c \<Rightarrow> ref \<Rightarrow> ref \<Rightarrow> 'c state \<times> (error + 'c)" where
  "rebaseChange changeRebaser s chg sourceHead targetHead =
     (case findCommonAncestor (heap s) (Some sourceHead, []) (Some targetHead, []) of
        Inl e \<Rightarrow> (s, Inl e)
      | Inr (None, sourcePath, targetPath) \<Rightarrow> (s, Inl (AssertionFailed ''0x576''))
      | Inr (Some ancestor, sourcePath, targetPath) \<Rightarrow>
          (case rebaseOverInverses changeRebaser (heap s) s chg (rev sourcePath) of
             (s', Inl e) \<Rightarrow> (s', Inl e)
           | (s', Inr changeRebasedToRef) \<Rightarrow>
               (s', rebaseChangeOverChanges changeRebaser changeRebasedToRef
                      (map (\<lambda>r. asTagged (heap s ! r)) targetPath))))"

section \<open>Notions of the specification\<close>

text \<open>
  A store that was built by creating commits one after the other: the parent of a commit
  exists before the commit, and commits are never changed afterwards, so every parent
  reference points to an older commit.
\<close>

definition wellFormed :: "'c GraphCommit list \<Rightarrow> bool" where
  "wellFormed h =
     list_all (\<lambda>i. case parent (h ! i) of None \<Rightarrow> True | Some p \<Rightarrow> p < i) [0..<length h]"

text \<open>The parent chain of a commit: the commit, its parent, and so on up to the root.\<close>

function chain :: "'c GraphCommit list \<Rightarrow> ref \<Rightarrow> ref list" where
  "chain h a =
     (if a < length h then
        (case parent (h ! a) of
           None \<Rightarrow> [a]
         | Some p \<Rightarrow> if p < a then a # chain h p else [a])
      else [])"
  by pat_completeness auto
termination
  by (relation "measure snd") auto

declare chain.simps [simp del]

fun chainOf :: "'c GraphCommit list \<Rightarrow> ref option \<Rightarrow> ref list" where
  "chainOf h None = []"
| "chainOf h (Some a) = chain h a"

text \<open>
  The invariant of the walk of \<^verbatim>\<open>findCommonAncestor\<close>, and what the walk returns. One
  side of the walk has gone from \<open>start\<close> up to \<open>cur\<close> and has put the commits it left
  behind in front of its path; the two paths are disjoint and make up the visited set.
\<close>

definition sideInv :: "'c GraphCommit list \<Rightarrow> ref option \<Rightarrow> ref option \<Rightarrow> ref list \<Rightarrow> bool" where
  "sideInv h start cur own \<longleftrightarrow>
     chainOf h start = rev own @ chainOf h cur \<and> (\<forall>x. cur = Some x \<longrightarrow> x < length h)"

definition walkInv :: "'c GraphCommit list \<Rightarrow> ref option \<Rightarrow> ref option \<Rightarrow> walk \<Rightarrow> bool" where
  "walkInv h a0 b0 w =
     (case w of (a, b, visited, pathA, pathB) \<Rightarrow>
        sideInv h a0 a pathA \<and> sideInv h b0 b pathB \<and>
        visited = set pathA \<union> set pathB \<and> set pathA \<inter> set pathB = {})"

definition fcaSpec ::
  "'c GraphCommit list \<Rightarrow> ref option \<Rightarrow> ref option \<Rightarrow>
     error + ref option \<times> ref list \<times> ref list \<Rightarrow> bool" where
  "fcaSpec h a0 b0 res =
     (case res of
        Inl e \<Rightarrow> False
      | Inr (None, pathA, pathB) \<Rightarrow>
          set (chainOf h a0) \<inter> set (chainOf h b0) = {} \<and> pathA = [] \<and> pathB = []
      | Inr (Some c, pathA, pathB) \<Rightarrow>
          chainOf h a0 = rev pathA @ chain h c \<and> chainOf h b0 = rev pathB @ chain h c \<and>
          set pathA \<inter> set pathB = {} \<and> c < length h)"


section \<open>Scenarios\<close>

text \<open>
  The integer-counter algebra of the specification: rebasing leaves a change as it is,
  the inverse is the negation, and composition is the sum.
\<close>

definition counterAlgebra :: "int ChangeRebaser" where
  "counterAlgebra =
     \<lparr>rebase = (\<lambda>c over. Inr c),
      invert = (\<lambda>c rollback. Inr (- tChange c)),
      compose = (\<lambda>cs. Inr (sum_list (map tChange cs)))\<rparr>"

text \<open>An algebra whose three operations throw whenever they are called.\<close>

definition throwingAlgebra :: "int ChangeRebaser" where
  "throwingAlgebra =
     \<lparr>rebase = (\<lambda>c over. Inl (AlgebraError 1)),
      invert = (\<lambda>c rollback. Inl (AlgebraError 2)),
      compose = (\<lambda>cs. Inl (AlgebraError 3))\<rparr>"

definition commit :: "RevisionTag \<Rightarrow> int \<Rightarrow> ref option \<Rightarrow> int GraphCommit" where
  "commit r c p = \<lparr>revision = r, sessionId = ''session'', change = c, parent = p\<rparr>"

text \<open>
  The store of the cancel-out scenario. Reference 0 is the root \<open>A\<close>; 1 and 2 are
  \<open>B\<close> (+1) and \<open>C\<close> (+2) of the target branch; 3 is \<open>B'\<close> (+5), minted off \<open>A\<close> with
  the revision of \<open>B\<close>; 4 is \<open>D\<close> (+3), minted off \<open>B'\<close>.
\<close>

definition cancelOut :: "int state" where
  "cancelOut =
     \<lparr>heap = [commit 0 0 None, commit 1 1 (Some 0), commit 2 2 (Some 1),
              commit 1 5 (Some 0), commit 3 3 (Some 3)],
      nextTag = 4\<rparr>"

text \<open>
  A store where the source commit with the revision of \<open>B\<close> comes after another source
  commit: 0 is the root, 1 and 2 are \<open>B\<close> and \<open>C\<close> of the target branch; 3 is \<open>D\<close> (+3),
  minted off the root; 4 is \<open>B'\<close> (+5), minted off \<open>D\<close> with the revision of \<open>B\<close>.
\<close>

definition interleaved :: "int state" where
  "interleaved =
     \<lparr>heap = [commit 0 0 None, commit 1 1 (Some 0), commit 2 2 (Some 1),
              commit 3 3 (Some 0), commit 1 5 (Some 3)],
      nextTag = 4\<rparr>"

text \<open>A store with two roots: 0 with its child 1, and 2 with its child 3.\<close>

definition unrelated :: "int state" where
  "unrelated =
     \<lparr>heap = [commit 0 0 None, commit 1 1 (Some 0), commit 2 2 None, commit 3 3 (Some 2)],
      nextTag = 4\<rparr>"

text \<open>The counter algebra with a \<^verbatim>\<open>compose\<close> that throws.\<close>

definition composeThrows :: "int ChangeRebaser" where
  "composeThrows =
     \<lparr>rebase = (\<lambda>c over. Inr c),
      invert = (\<lambda>c rollback. Inr (- tChange c)),
      compose = (\<lambda>cs. Inl (AlgebraError 3))\<rparr>"

text \<open>
  The store \<open>interleaved\<close> with one more source commit: 5 is \<open>E\<close> (+7), minted off
  \<open>B'\<close> with a revision of its own.
\<close>

definition threeSource :: "int state" where
  "threeSource =
     \<lparr>heap = [commit 0 0 None, commit 1 1 (Some 0), commit 2 2 (Some 1),
              commit 3 3 (Some 0), commit 1 5 (Some 3), commit 4 7 (Some 4)],
      nextTag = 5\<rparr>"

section \<open>Well-formed stores\<close>

text \<open>
  Creating a commit whose parent is in the store keeps the store well-formed, so every
  store that was built with \<^verbatim>\<open>mintCommit\<close> from roots is well-formed.
\<close>

lemma wellFormed_iff:
  "wellFormed h \<longleftrightarrow> (\<forall>i < length h. \<forall>p. parent (h ! i) = Some p \<longrightarrow> p < i)"
  by (auto simp: wellFormed_def list_all_iff split: option.splits)

lemma alloc_wellFormed:
  assumes "wellFormed (heap s)" and "\<forall>p. parent c = Some p \<longrightarrow> p < length (heap s)"
  shows "wellFormed (heap (fst (alloc s c)))"
  using assms by (auto simp: wellFormed_iff alloc_def nth_append less_Suc_eq)

lemma mintCommit_wellFormed:
  "wellFormed (heap s) \<Longrightarrow> p < length (heap s) \<Longrightarrow> wellFormed (heap (fst (mintCommit s p c)))"
  by (simp add: mintCommit_def alloc_wellFormed)

section \<open>Parent chains\<close>

lemma wellFormed_parent:
  "wellFormed h \<Longrightarrow> i < length h \<Longrightarrow> parent (h ! i) = Some p \<Longrightarrow> p < i"
  by (auto simp: wellFormed_def list_all_iff split: option.splits)

lemma chain_step:
  "wellFormed h \<Longrightarrow> x < length h \<Longrightarrow> chain h x = x # chainOf h (parent (h ! x))"
  by (subst chain.simps) (auto split: option.splits dest: wellFormed_parent)

lemma chain_outside: "length h \<le> x \<Longrightarrow> chain h x = []"
  by (subst chain.simps) simp

lemma chain_bound: "y \<in> set (chain h a) \<Longrightarrow> y \<le> a \<and> y < length h"
proof (induction h a rule: chain.induct)
  case (1 h a)
  show ?case
  proof (cases "a < length h")
    case False
    with "1.prems" show ?thesis by (simp add: chain_outside)
  next
    case True
    show ?thesis
    proof (cases "parent (h ! a)")
      case None
      with True "1.prems" show ?thesis by (subst (asm) chain.simps) simp
    next
      case (Some p)
      show ?thesis
      proof (cases "p < a")
        case False
        with True Some "1.prems" show ?thesis by (subst (asm) chain.simps) simp
      next
        case lt: True
        from "1.prems" True Some lt have "y = a \<or> y \<in> set (chain h p)"
          by (subst (asm) chain.simps) simp
        then show ?thesis using "1.IH"[OF True Some lt] True lt by auto
      qed
    qed
  qed
qed

lemma chain_head: "chain h a = x # xs \<Longrightarrow> x = a \<and> a < length h"
  by (subst (asm) chain.simps) (auto split: if_splits option.splits)

lemma chain_tail_less: "chain h a = x # xs \<Longrightarrow> y \<in> set xs \<Longrightarrow> y < a"
  by (subst (asm) chain.simps) (auto split: if_splits option.splits dest: chain_bound)

lemma chain_tail:
  "chain h a = x # y # ys \<Longrightarrow> chain h y = y # ys \<and> parent (h ! x) = Some y"
  by (subst (asm) chain.simps) (auto split: if_splits option.splits dest: chain_head)

lemma chain_suffix: "chain h a = ys @ x # zs \<Longrightarrow> chain h x = x # zs"
proof (induction ys arbitrary: a)
  case Nil
  then show ?case using chain_head[of h a x zs] by simp
next
  case (Cons y ys)
  show ?case
  proof (cases ys)
    case Nil
    with Cons.prems show ?thesis using chain_tail[of h a y x zs] by simp
  next
    case (Cons y' ys')
    with Cons.prems have "chain h y' = ys @ x # zs"
      using chain_tail[of h a y y' "ys' @ x # zs"] by simp
    then show ?thesis by (rule Cons.IH)
  qed
qed

lemma chain_distinct: "distinct (chain h a)"
proof (induction h a rule: chain.induct)
  case (1 h a)
  show ?case
  proof (cases "chain h a")
    case Nil
    then show ?thesis by simp
  next
    case (Cons x xs)
    have "a \<notin> set xs" using chain_tail_less[OF Cons] by auto
    moreover have "x = a" "a < length h" using chain_head[OF Cons] by auto
    moreover have "distinct xs"
    proof (cases xs)
      case Nil
      then show ?thesis by simp
    next
      case (Cons y ys)
      with \<open>chain h a = x # xs\<close> have c: "chain h y = xs" and p: "parent (h ! a) = Some y"
        using chain_tail[of h a x y ys] \<open>x = a\<close> by auto
      have "y < a" using chain_tail_less[OF \<open>chain h a = x # xs\<close>] Cons by simp
      from "1.IH"[OF \<open>a < length h\<close> p this] c show ?thesis by simp
    qed
    ultimately show ?thesis using Cons by simp
  qed
qed

lemma chainOf_suffix: "chainOf h s = ys @ x # zs \<Longrightarrow> chain h x = x # zs"
  by (cases s) (auto dest: chain_suffix)

lemma chainOf_distinct: "distinct (chainOf h s)"
  by (cases s) (auto simp: chain_distinct)

lemma findIndex_first:
  "x \<notin> set pre \<Longrightarrow> findIndex (\<lambda>r. r = x) (pre @ x # post) = int (length pre)"
  by (induction pre) (auto simp: Let_def)

lemma findIndex_absent: "findIndex P xs = - 1 \<longleftrightarrow> (\<forall>x \<in> set xs. \<not> P x)"
proof (induction xs)
  case Nil
  then show ?case by simp
next
  case (Cons x xs)
  have "0 \<le> findIndex P xs \<or> findIndex P xs = - 1" for xs :: "'a list"
    by (induction xs) (auto simp: Let_def)
  from this[of xs] Cons show ?case by (auto simp: Let_def)
qed



section \<open>Correctness of the walk\<close>

lemma visit_returns:
  assumes wf: "wellFormed h"
    and own: "sideInv h s cur own" and other: "sideInv h t oc other"
    and vis: "visited = set own \<union> set other"
    and v: "visit h cur visited own other = Inl r"
  shows "\<exists>x post. r = Inr (x, own, post) \<and> chainOf h s = rev own @ chain h x \<and>
           chainOf h t = rev post @ chain h x \<and> set post \<subseteq> set other \<and> x < length h"
proof -
  from v obtain x where cur: "cur = Some x"
    by (cases cur) (auto simp: visit_def)
  with own have x: "x < length h" and cs: "chainOf h s = rev own @ chain h x"
    by (auto simp: sideInv_def)
  from v cur x have xv: "x \<in> visited"
    and r: "r = Inr (x, own, drop (nat (findIndex (\<lambda>r. r = x) other + 1)) other)"
    by (auto simp: visit_def split: if_splits)
  have "chain h x = x # chainOf h (parent (h ! x))"
    using wf x by (rule chain_step)
  with cs chainOf_distinct[of h s] have "x \<notin> set own" by auto
  with xv vis have "x \<in> set other" by simp
  then obtain pre post where sp: "other = pre @ x # post" and np: "x \<notin> set pre"
    by (auto dest: split_list_first)
  have "nat (int (length pre) + 1) = Suc (length pre)" by simp
  then have dr: "drop (nat (findIndex (\<lambda>r. r = x) other + 1)) other = post"
    by (simp add: sp findIndex_first[OF np])
  from other sp have ct: "chainOf h t = rev post @ x # (rev pre @ chainOf h oc)"
    by (simp add: sideInv_def)
  then have "chain h x = x # (rev pre @ chainOf h oc)"
    by (rule chainOf_suffix)
  with ct have "chainOf h t = rev post @ chain h x" by simp
  with r dr cs x sp show ?thesis by auto
qed

lemma visit_preserves:
  assumes wf: "wellFormed h"
    and own: "sideInv h s cur own"
    and vis: "visited = set own \<union> set other" and dis: "set own \<inter> set other = {}"
    and v: "visit h cur visited own other = Inr (cur', visited', own')"
  shows "sideInv h s cur' own' \<and> visited' = set own' \<union> set other \<and> set own' \<inter> set other = {}"
proof (cases cur)
  case None
  with v own vis dis show ?thesis by (auto simp: visit_def)
next
  case (Some x)
  with v have nv: "x \<notin> visited" and x: "x < length h"
    and eq: "cur' = parent (h ! x)" "visited' = insert x visited" "own' = x # own"
    by (auto simp: visit_def split: if_splits)
  have st: "chain h x = x # chainOf h (parent (h ! x))"
    using wf x by (rule chain_step)
  have "\<forall>p. parent (h ! x) = Some p \<longrightarrow> p < length h"
    using wellFormed_parent[OF wf x] x by fastforce
  with own Some st eq have "sideInv h s cur' own'"
    by (simp add: sideInv_def)
  then show ?thesis using eq nv vis dis by auto
qed

lemma fcaBody_returns:
  assumes wf: "wellFormed h" and inv: "walkInv h a0 b0 w" and body: "fcaBody h w = Inl r"
  shows "fcaSpec h a0 b0 r"
proof -
  obtain a b visited pathA pathB where w: "w = (a, b, visited, pathA, pathB)"
    by (cases w) auto
  from inv w have sa: "sideInv h a0 a pathA" and sb: "sideInv h b0 b pathB"
    and vis: "visited = set pathA \<union> set pathB" and dis: "set pathA \<inter> set pathB = {}"
    by (auto simp: walkInv_def)
  show ?thesis
  proof (cases "a \<noteq> None \<or> b \<noteq> None")
    case False
    with body w have "r = Inr (None, [], [])" by (simp add: fcaBody_def)
    moreover from False sa sb dis
    have "set (chainOf h a0) \<inter> set (chainOf h b0) = {}"
      by (auto simp: sideInv_def)
    ultimately show ?thesis by (simp add: fcaSpec_def)
  next
    case True
    show ?thesis
    proof (cases "visit h a visited pathA pathB")
      case (Inl ra)
      from visit_returns[OF wf sa sb vis Inl] obtain x post where
        ra: "ra = Inr (x, pathA, post)" and
        props: "chainOf h a0 = rev pathA @ chain h x" "chainOf h b0 = rev post @ chain h x"
          "set post \<subseteq> set pathB" "x < length h"
        by blast
      from body w True Inl ra have "r = Inr (Some x, pathA, post)"
        by (simp add: fcaBody_def)
      with props dis show ?thesis by (auto simp: fcaSpec_def)
    next
      case (Inr na)
      obtain a' v1 pathA' where na: "na = (a', v1, pathA')" by (cases na) auto
      from visit_preserves[OF wf sa vis dis Inr[unfolded na]]
      have sa': "sideInv h a0 a' pathA'" and vis': "v1 = set pathA' \<union> set pathB"
        and dis': "set pathA' \<inter> set pathB = {}" by auto
      from body w True Inr na obtain rb where vb: "visit h b v1 pathB pathA' = Inl rb"
        by (auto simp: fcaBody_def split: sum.splits)
      from vis' have vis'': "v1 = set pathB \<union> set pathA'" by auto
      from visit_returns[OF wf sb sa' vis'' vb] obtain y post where
        rb: "rb = Inr (y, pathB, post)" and
        props: "chainOf h b0 = rev pathB @ chain h y" "chainOf h a0 = rev post @ chain h y"
          "set post \<subseteq> set pathA'" "y < length h"
        by blast
      from body w True Inr na vb rb have "r = Inr (Some y, post, pathB)"
        by (simp add: fcaBody_def)
      with props dis' show ?thesis by (auto simp: fcaSpec_def)
    qed
  qed
qed

lemma fcaBody_preserves:
  assumes wf: "wellFormed h" and inv: "walkInv h a0 b0 w" and body: "fcaBody h w = Inr w'"
  shows "walkInv h a0 b0 w'"
proof -
  obtain a b visited pathA pathB where w: "w = (a, b, visited, pathA, pathB)"
    by (cases w) auto
  from inv w have sa: "sideInv h a0 a pathA" and sb: "sideInv h b0 b pathB"
    and vis: "visited = set pathA \<union> set pathB" and dis: "set pathA \<inter> set pathB = {}"
    by (auto simp: walkInv_def)
  from body w obtain a' v1 pathA' b' v2 pathB' where
    va: "visit h a visited pathA pathB = Inr (a', v1, pathA')" and
    vb: "visit h b v1 pathB pathA' = Inr (b', v2, pathB')" and
    w': "w' = (a', b', v2, pathA', pathB')"
    by (auto simp: fcaBody_def split: if_splits sum.splits prod.splits)
  from visit_preserves[OF wf sa vis dis va]
  have sa': "sideInv h a0 a' pathA'" and vis': "v1 = set pathB \<union> set pathA'"
    and dis': "set pathB \<inter> set pathA' = {}" by auto
  from visit_preserves[OF wf sb vis' dis' vb]
  have "sideInv h b0 b' pathB'" "v2 = set pathB' \<union> set pathA'" "set pathB' \<inter> set pathA' = {}"
    by auto
  with sa' w' show ?thesis by (auto simp: walkInv_def)
qed

lemma fcaLoop_correct:
  "wellFormed h \<Longrightarrow> walkInv h a0 b0 w \<Longrightarrow> fcaSpec h a0 b0 (fcaLoop h w)"
proof (induction h w rule: fcaLoop.induct)
  case (1 h w)
  show ?case
  proof (cases "fcaBody h w")
    case (Inl r)
    then have "fcaLoop h w = r" by (subst fcaLoop.simps) simp
    with fcaBody_returns[OF "1.prems" Inl] show ?thesis by simp
  next
    case (Inr w')
    then have "fcaLoop h w = fcaLoop h w'" by (subst fcaLoop.simps) simp
    with "1.IH"[OF Inr "1.prems"(1) fcaBody_preserves[OF "1.prems" Inr]] show ?thesis by simp
  qed
qed

lemma findCommonAncestor_correct:
  assumes wf: "wellFormed h"
    and a: "\<forall>x. a = Some x \<longrightarrow> x < length h" and b: "\<forall>x. b = Some x \<longrightarrow> x < length h"
  shows "fcaSpec h a b (findCommonAncestor h (a, []) (b, []))"
proof (cases "a = b")
  case True
  with a show ?thesis
    by (cases a) (auto simp: findCommonAncestor_def fcaSpec_def)
next
  case False
  have "walkInv h a b (a, b, {}, [], [])"
    using a b by (simp add: walkInv_def sideInv_def)
  from fcaLoop_correct[OF wf this] False show ?thesis
    by (simp add: findCommonAncestor_def)
qed

text \<open>
  In particular the walk from two commits of a well-formed store returns: the model's
  \<open>InvalidReference\<close> does not occur.
\<close>

lemma findCommonAncestor_returns:
  assumes "wellFormed h" and "a < length h" and "b < length h"
  shows "\<exists>r. findCommonAncestor h (Some a, []) (Some b, []) = Inr r"
proof -
  have "fcaSpec h (Some a) (Some b) (findCommonAncestor h (Some a, []) (Some b, []))"
    using assms by (intro findCommonAncestor_correct) auto
  then show ?thesis by (auto simp: fcaSpec_def split: sum.splits)
qed

lemma findCommonAncestor_found:
  assumes wf: "wellFormed h" and a: "a < length h" and b: "b < length h"
    and res: "findCommonAncestor h (Some a, []) (Some b, []) = Inr (Some c, pathA, pathB)"
  shows "chain h a = rev pathA @ chain h c" and "chain h b = rev pathB @ chain h c"
    and "c < length h" and "set pathA \<inter> set pathB = {}"
proof -
  have "fcaSpec h (Some a) (Some b) (findCommonAncestor h (Some a, []) (Some b, []))"
    using wf a b by (intro findCommonAncestor_correct) auto
  with res show "chain h a = rev pathA @ chain h c" and "chain h b = rev pathB @ chain h c"
    and "c < length h" and "set pathA \<inter> set pathB = {}"
    by (auto simp: fcaSpec_def)
qed

lemma findCommonAncestor_related:
  assumes wf: "wellFormed h" and x: "x \<in> set (chain h a)" "x \<in> set (chain h b)"
  shows "\<exists>c pathA pathB. findCommonAncestor h (Some a, []) (Some b, []) = Inr (Some c, pathA, pathB)"
proof -
  have a: "a < length h" using x(1) chain_outside[of h a] by (cases "a < length h") auto
  have b: "b < length h" using x(2) chain_outside[of h b] by (cases "b < length h") auto
  have "fcaSpec h (Some a) (Some b) (findCommonAncestor h (Some a, []) (Some b, []))"
    using wf a b by (intro findCommonAncestor_correct) auto
  with x show ?thesis
    by (auto simp: fcaSpec_def split: sum.splits option.splits)
qed

lemma chain_self: "wellFormed h \<Longrightarrow> x < length h \<Longrightarrow> x \<in> set (chain h x)"
  by (simp add: chain_step)

section \<open>The store only grows\<close>

lemma inverseFromCommit_heap:
  "inverseFromCommit cr s c = (s', r) \<Longrightarrow> heap s' = heap s"
  by (auto simp: inverseFromCommit_def mintRevisionTag_def split: sum.splits)

lemma reparent_prefix:
  "reparent s base cs new = (s', new') \<Longrightarrow> prefix (heap s) (heap s')"
proof (induction cs arbitrary: s new)
  case Nil
  then show ?case by simp
next
  case (Cons c cs)
  obtain s1 m where m: "mintCommit s (if new = [] then base else last new) (heap s ! c) = (s1, m)"
    by (cases "mintCommit s (if new = [] then base else last new) (heap s ! c)") auto
  then have "prefix (heap s) (heap s1)"
    by (auto simp: mintCommit_def alloc_def)
  moreover from Cons.prems m have "reparent s1 base cs (new @ [m]) = (s', new')" by simp
  then have "prefix (heap s1) (heap s')" by (rule Cons.IH)
  ultimately show ?case by (rule prefix_order.trans)
qed

lemma rebaseLoop_prefix:
  "rebaseLoop cr S s sp newHead inverses trp new = (s', r) \<Longrightarrow> prefix (heap s) (heap s')"
proof (induction sp arbitrary: s newHead inverses trp new)
  case Nil
  then show ?case by simp
next
  case (Cons c sp)
  let ?c = "heap s ! c"
  show ?case
  proof (cases "revision ?c \<in> S")
    case True
    show ?thesis
    proof (cases "rebaseChangeOverChanges cr (change ?c) (inverses @ trp)")
      case (Inl e)
      with Cons.prems True show ?thesis by simp
    next
      case (Inr chg)
      let ?s1 = "s\<lparr>heap := heap s @ [\<lparr>revision = revision ?c, sessionId = sessionId ?c,
                    change = chg, parent = Some newHead\<rparr>]\<rparr>"
      obtain s2 ri where i: "inverseFromCommit cr ?s1 ?c = (s2, ri)"
        by (cases "inverseFromCommit cr ?s1 ?c") auto
      have h2: "heap s2 = heap ?s1" using i by (rule inverseFromCommit_heap)
      then have p: "prefix (heap s) (heap s2)" by simp
      show ?thesis
      proof (cases ri)
        case (Inl e)
        with Cons.prems True Inr i p show ?thesis by (simp add: alloc_def)
      next
        case r: (Inr undo)
        with Cons.prems True Inr i have
          "rebaseLoop cr S s2 sp (length (heap s)) (undo # inverses)
             (trp @ [\<lparr>tRevision = Some (revision ?c), tRollbackOf = None, tChange = chg\<rparr>])
             (new @ [length (heap s)]) = (s', r)"
          by (simp add: alloc_def)
        then have "prefix (heap s2) (heap s')" by (rule Cons.IH)
        with p show ?thesis by (rule prefix_order.trans)
      qed
    qed
  next
    case False
    obtain s2 ri where i: "inverseFromCommit cr s ?c = (s2, ri)"
      by (cases "inverseFromCommit cr s ?c") auto
    have h2: "heap s2 = heap s" using i by (rule inverseFromCommit_heap)
    show ?thesis
    proof (cases ri)
      case (Inl e)
      with Cons.prems False i h2 show ?thesis by simp
    next
      case r: (Inr undo)
      with Cons.prems False i have
        "rebaseLoop cr S s2 sp newHead (undo # inverses) trp new = (s', r)"
        by simp
      then have "prefix (heap s2) (heap s')" by (rule Cons.IH)
      with h2 show ?thesis by simp
    qed
  qed
qed

lemma rebaseBranch_prefix:
  "rebaseBranch cr s sourceHead targetCommit targetHead = (s', r) \<Longrightarrow>
     prefix (heap s) (heap s')"
  unfolding rebaseBranch_def Let_def
  by (auto split: sum.splits option.splits prod.splits if_splits
      dest: rebaseLoop_prefix reparent_prefix)

section \<open>The re-parenting loop\<close>

lemma upt_shift: "[n..<Suc (n + k)] = n # [Suc n..<Suc (n + k)]"
  by (simp add: upt_conv_Cons del: upt_Suc)

lemma reparent_step:
  "reparent s base (c # cs) new =
     reparent (s\<lparr>heap := heap s @
        [\<lparr>revision = revision (heap s ! c), sessionId = sessionId (heap s ! c),
          change = change (heap s ! c),
          parent = Some (if new = [] then base else last new)\<rparr>]\<rparr>)
       base cs (new @ [length (heap s)])"
  by (simp add: mintCommit_def alloc_def)

lemma reparent_new:
  "reparent s base cs new = (s', new') \<Longrightarrow>
     new' = new @ [length (heap s)..<length (heap s) + length cs] \<and>
     length (heap s') = length (heap s) + length cs \<and> nextTag s' = nextTag s"
proof (induction cs arbitrary: s new)
  case Nil
  then show ?case by simp
next
  case (Cons c cs)
  from Cons.IH[OF Cons.prems[unfolded reparent_step]]
  show ?case by (simp add: upt_shift del: upt_Suc)
qed

lemma reparent_links:
  "reparent s base cs new = (s', new') \<Longrightarrow>
     successively (\<lambda>p c. parent (heap s' ! c) = Some p)
       ((if new = [] then base else last new) # [length (heap s)..<length (heap s) + length cs])"
proof (induction cs arbitrary: s new)
  case Nil
  then show ?case by simp
next
  case (Cons c cs)
  let ?m = "\<lparr>revision = revision (heap s ! c), sessionId = sessionId (heap s ! c),
          change = change (heap s ! c),
          parent = Some (if new = [] then base else last new)\<rparr>"
  let ?s1 = "s\<lparr>heap := heap s @ [?m]\<rparr>"
  from Cons.prems have r: "reparent ?s1 base cs (new @ [length (heap s)]) = (s', new')"
    by (simp only: reparent_step)
  from reparent_prefix[OF r] obtain ys where "heap s' = heap s @ [?m] @ ys"
    by (auto simp: prefix_def)
  then have "heap s' ! length (heap s) = ?m" by (simp add: nth_append)
  with Cons.IH[OF r] show ?case by (simp add: upt_shift del: upt_Suc)
qed

lemma reparent_copies:
  "reparent s base cs new = (s', new') \<Longrightarrow> set cs \<subseteq> {..<length (heap s)} \<Longrightarrow>
     list_all2 (\<lambda>c m. revision (heap s' ! m) = revision (heap s ! c) \<and>
                       sessionId (heap s' ! m) = sessionId (heap s ! c) \<and>
                       change (heap s' ! m) = change (heap s ! c))
       cs [length (heap s)..<length (heap s) + length cs]"
proof (induction cs arbitrary: s new)
  case Nil
  then show ?case by simp
next
  case (Cons c cs)
  let ?m = "\<lparr>revision = revision (heap s ! c), sessionId = sessionId (heap s ! c),
          change = change (heap s ! c),
          parent = Some (if new = [] then base else last new)\<rparr>"
  let ?s1 = "s\<lparr>heap := heap s @ [?m]\<rparr>"
  from Cons.prems have r: "reparent ?s1 base cs (new @ [length (heap s)]) = (s', new')"
    by (simp only: reparent_step)
  from reparent_prefix[OF r] obtain ys where "heap s' = heap s @ [?m] @ ys"
    by (auto simp: prefix_def)
  then have m: "heap s' ! length (heap s) = ?m" by (simp add: nth_append)
  from Cons.prems have sub: "set cs \<subseteq> {..<length (heap ?s1)}" by auto
  have "list_all2 (\<lambda>c m. revision (heap s' ! m) = revision (heap ?s1 ! c) \<and>
                       sessionId (heap s' ! m) = sessionId (heap ?s1 ! c) \<and>
                       change (heap s' ! m) = change (heap ?s1 ! c))
       cs [length (heap ?s1)..<length (heap ?s1) + length cs]"
    using r sub by (rule Cons.IH)
  then have "list_all2 (\<lambda>c m. revision (heap s' ! m) = revision (heap s ! c) \<and>
                       sessionId (heap s' ! m) = sessionId (heap s ! c) \<and>
                       change (heap s' ! m) = change (heap s ! c))
       cs [length (heap ?s1)..<length (heap ?s1) + length cs]"
    using Cons.prems(2) by (elim list.rel_mono_strong) (auto simp: nth_append)
  with m show ?case by (simp add: upt_shift del: upt_Suc)
qed

section \<open>The paths through rebaseBranch\<close>

lemma findIndex_bounds:
  "\<exists>x \<in> set xs. P x \<Longrightarrow>
     0 \<le> findIndex P xs \<and> nat (findIndex P xs) < length xs \<and> P (xs ! nat (findIndex P xs))"
proof (induction xs)
  case Nil
  then show ?case by simp
next
  case (Cons x xs)
  show ?case
  proof (cases "P x")
    case True
    then show ?thesis by simp
  next
    case False
    with Cons.prems have "\<exists>x \<in> set xs. P x" by simp
    from Cons.IH[OF this] False show ?thesis
      by (auto simp: Let_def nat_add_distrib)
  qed
qed

lemma scanTargetPath_bounds:
  "scanTargetPath h tci ts i S nb = (S', nbi) \<Longrightarrow> nb < i + length ts \<Longrightarrow>
     nb \<le> nbi \<and> nbi < i + length ts"
proof (induction ts arbitrary: i S nb)
  case Nil
  then show ?case by simp
next
  case (Cons t ts)
  show ?case
  proof (cases "revision (h ! t) \<in> S")
    case True
    with Cons.prems(1) have
      "scanTargetPath h tci ts (Suc i) (S - {revision (h ! t)}) (max nb i) = (S', nbi)"
      by simp
    from Cons.IH[OF this] Cons.prems(2) show ?thesis by auto
  next
    case False
    show ?thesis
    proof (cases "tci \<le> i")
      case True
      with False Cons.prems show ?thesis by simp
    next
      case nb: False
      with False Cons.prems(1) have "scanTargetPath h tci ts (Suc i) S nb = (S', nbi)"
        by simp
      from Cons.IH[OF this] Cons.prems(2) nb show ?thesis by auto
    qed
  qed
qed


lemma stripCommonPrefix_drops:
  "stripCommonPrefix h n sp trp = Inr (sp', trp') \<Longrightarrow>
     \<exists>k. sp' = drop k sp \<and> trp' = drop k trp \<and> k \<le> n \<and>
       map (\<lambda>r. revision (h ! r)) (take k sp) = map (\<lambda>r. revision (h ! r)) (take k trp)"
proof (induction n arbitrary: sp trp)
  case 0
  then show ?case by (intro exI[of _ 0]) simp
next
  case (Suc n)
  from Suc.prems obtain x xs y ys where sp: "sp = x # xs" and trp: "trp = y # ys"
    by (auto split: list.splits)
  show ?case
  proof (cases "revision (h ! x) = revision (h ! y)")
    case True
    with Suc.prems sp trp have "stripCommonPrefix h n xs ys = Inr (sp', trp')" by simp
    from Suc.IH[OF this] obtain k where
      "sp' = drop k xs" "trp' = drop k ys" "k \<le> n"
      "map (\<lambda>r. revision (h ! r)) (take k xs) = map (\<lambda>r. revision (h ! r)) (take k ys)"
      by blast
    with True sp trp show ?thesis by (intro exI[of _ "Suc k"]) simp
  next
    case False
    with Suc.prems sp trp have "stripCommonPrefix h n sp trp = Inr (sp', trp')" by simp
    from Suc.IH[OF this] show ?thesis by (auto intro: le_SucI)
  qed
qed

lemma stripCommonPrefix_total:
  "n \<le> length sp \<Longrightarrow> n \<le> length trp \<Longrightarrow>
     \<exists>sp' trp'. stripCommonPrefix h n sp trp = Inr (sp', trp')"
proof (induction n arbitrary: sp trp)
  case 0
  then show ?case by simp
next
  case (Suc n)
  then obtain x xs y ys where sp: "sp = x # xs" and trp: "trp = y # ys"
    by (cases sp; cases trp) auto
  with Suc.prems have "n \<le> length xs" "n \<le> length ys" "n \<le> length sp" "n \<le> length trp"
    by auto
  with Suc.IH[of xs ys] Suc.IH[of sp trp] sp trp show ?case by auto
qed

lemma stripCommonPrefix_prefix:
  "prefix (map (\<lambda>r. revision (h ! r)) trp) (map (\<lambda>r. revision (h ! r)) sp) \<Longrightarrow>
     stripCommonPrefix h (min (length sp) (length trp)) sp trp = Inr (drop (length trp) sp, [])"
proof (induction trp arbitrary: sp)
  case Nil
  then show ?case by simp
next
  case (Cons y ys)
  then obtain x xs where sp: "sp = x # xs" and eq: "revision (h ! x) = revision (h ! y)"
    and pre: "prefix (map (\<lambda>r. revision (h ! r)) ys) (map (\<lambda>r. revision (h ! r)) xs)"
    by (cases sp) auto
  from Cons.IH[OF pre] sp eq show ?case by simp
qed

lemma rebaseBranch_returns:
  assumes "rebaseBranch cr s sourceHead targetCommit targetHead =
             (s', Inr (newHead, sourceChange, commits))"
  shows "\<exists>ancestor sourcePath targetPath.
     findCommonAncestor (heap s) (Some sourceHead, []) (Some targetHead, []) =
       Inr (Some ancestor, sourcePath, targetPath) \<and>
     (targetCommit \<notin> set targetPath \<and> s' = s \<and> newHead = sourceHead \<and> sourceChange = None \<and>
        commits = \<lparr>newBase = ancestor, deletedSourceCommits = [], newSourceCommits = []\<rparr>
      \<or> targetCommit \<in> set targetPath \<and>
        (\<exists>sourceSet newBaseIndex sourcePath' targetRebasePath'.
           scanTargetPath (heap s) (nat (findIndex (\<lambda>r. r = targetCommit) targetPath)) targetPath 0
             (set (map (\<lambda>r. revision (heap s ! r)) sourcePath))
             (nat (findIndex (\<lambda>r. r = targetCommit) targetPath)) = (sourceSet, newBaseIndex) \<and>
           stripCommonPrefix (heap s)
             (min (length sourcePath) (length (take (newBaseIndex + 1) targetPath)))
             sourcePath (take (newBaseIndex + 1) targetPath) = Inr (sourcePath', targetRebasePath') \<and>
           (targetRebasePath' = [] \<and> sourceChange = None \<and>
              (\<exists>new. reparent s (targetPath ! newBaseIndex) sourcePath'
                        (take (newBaseIndex + 1) targetPath) = (s', new) \<and>
                 newHead = last new \<and>
                 commits = \<lparr>newBase = targetPath ! newBaseIndex,
                   deletedSourceCommits = sourcePath, newSourceCommits = new\<rparr>)
            \<or> targetRebasePath' \<noteq> [] \<and>
              (\<exists>inverses rebasedPath new c.
                 rebaseLoop cr sourceSet s sourcePath' (targetPath ! newBaseIndex) []
                   (map (\<lambda>r. asTagged (heap s ! r)) targetRebasePath')
                   (take (newBaseIndex + 1) targetPath) =
                   (s', Inr (newHead, inverses, rebasedPath, new)) \<and>
                 compose cr (inverses @ rebasedPath) = Inr c \<and> sourceChange = Some c \<and>
                 commits = \<lparr>newBase = targetPath ! newBaseIndex,
                   deletedSourceCommits = sourcePath, newSourceCommits = new\<rparr>))))"
  using assms unfolding rebaseBranch_def Let_def
  by (auto split: sum.splits option.splits prod.splits if_splits simp: findIndex_absent)


lemma rebaseLoop_kept:
  assumes "rebaseLoop cr S s (r # rest) newHead inverses trp new = (s', Inr res)"
    and "revision (heap s ! r) \<in> S"
  shows "\<exists>chg u.
     rebaseChangeOverChanges cr (change (heap s ! r)) (inverses @ trp) = Inr chg \<and>
     invert cr (asTagged (heap s ! r)) True = Inr u \<and>
     rebaseLoop cr S
       (s\<lparr>heap := heap s @
            [\<lparr>revision = revision (heap s ! r), sessionId = sessionId (heap s ! r),
              change = chg, parent = Some newHead\<rparr>],
          nextTag := Suc (nextTag s)\<rparr>)
       rest (length (heap s))
       (tagRollbackInverse u (nextTag s) (revision (heap s ! r)) # inverses)
       (trp @ [\<lparr>tRevision = Some (revision (heap s ! r)), tRollbackOf = None, tChange = chg\<rparr>])
       (new @ [length (heap s)]) = (s', Inr res)"
  using assms
  by (auto simp: Let_def alloc_def inverseFromCommit_def mintRevisionTag_def
      split: sum.splits prod.splits)

lemma rebaseLoop_cancelled:
  assumes "rebaseLoop cr S s (r # rest) newHead inverses trp new = (s', Inr res)"
    and "revision (heap s ! r) \<notin> S"
  shows "\<exists>u.
     invert cr (asTagged (heap s ! r)) True = Inr u \<and>
     rebaseLoop cr S (s\<lparr>nextTag := Suc (nextTag s)\<rparr>) rest newHead
       (tagRollbackInverse u (nextTag s) (revision (heap s ! r)) # inverses) trp new =
       (s', Inr res)"
  using assms
  by (auto simp: Let_def inverseFromCommit_def mintRevisionTag_def
      split: sum.splits prod.splits)

lemma rebaseLoop_new:
  "rebaseLoop cr S s sp newHead inverses trp new = (s', Inr (newHead', inverses', trp', new')) \<Longrightarrow>
     new' = new @ [length (heap s)..<length (heap s')] \<and>
     newHead' = last (newHead # [length (heap s)..<length (heap s')]) \<and>
     successively (\<lambda>p c. parent (heap s' ! c) = Some p)
       (newHead # [length (heap s)..<length (heap s')])"
proof (induction sp arbitrary: s newHead inverses trp new)
  case Nil
  then show ?case by simp
next
  case (Cons r rest)
  show ?case
  proof (cases "revision (heap s ! r) \<in> S")
    case True
    from rebaseLoop_kept[OF Cons.prems True] obtain chg u where
      run: "rebaseLoop cr S
       (s\<lparr>heap := heap s @
            [\<lparr>revision = revision (heap s ! r), sessionId = sessionId (heap s ! r),
              change = chg, parent = Some newHead\<rparr>],
          nextTag := Suc (nextTag s)\<rparr>)
       rest (length (heap s))
       (tagRollbackInverse u (nextTag s) (revision (heap s ! r)) # inverses)
       (trp @ [\<lparr>tRevision = Some (revision (heap s ! r)), tRollbackOf = None, tChange = chg\<rparr>])
       (new @ [length (heap s)]) = (s', Inr (newHead', inverses', trp', new'))"
      (is "rebaseLoop cr S ?s2 _ _ _ _ _ = _")
      by blast
    from rebaseLoop_prefix[OF run] obtain ys where
      h': "heap s' = heap s @ [\<lparr>revision = revision (heap s ! r),
             sessionId = sessionId (heap s ! r), change = chg, parent = Some newHead\<rparr>] @ ys"
      by (auto simp: prefix_def)
    then have len: "length (heap s) < length (heap s')" by simp
    from h' have m: "parent (heap s' ! length (heap s)) = Some newHead"
      by (simp add: nth_append)
    have up: "[length (heap s)..<length (heap s')] =
                length (heap s) # [Suc (length (heap s))..<length (heap s')]"
      using len by (simp add: upt_conv_Cons)
    from Cons.IH[OF run] m show ?thesis by (simp add: up)
  next
    case False
    from rebaseLoop_cancelled[OF Cons.prems False] obtain u where
      run: "rebaseLoop cr S (s\<lparr>nextTag := Suc (nextTag s)\<rparr>) rest newHead
       (tagRollbackInverse u (nextTag s) (revision (heap s ! r)) # inverses) trp new =
       (s', Inr (newHead', inverses', trp', new'))"
      by blast
    from Cons.IH[OF run] show ?thesis by simp
  qed
qed


lemma rebaseLoop_trace:
  assumes "rebaseLoop cr S s sp newHead inverses trp new =
             (s', Inr (newHead', inverses', trp', new'))"
    and "\<forall>x \<in> set sp. x < length (heap s) \<and> heap s ! x = h0 ! x"
  shows "map (\<lambda>m. revision (heap s' ! m)) [length (heap s)..<length (heap s')] =
       filter (\<lambda>t. t \<in> S) (map (\<lambda>r. revision (h0 ! r)) sp) \<and>
     map tRevision trp' =
       map tRevision trp @ map Some (filter (\<lambda>t. t \<in> S) (map (\<lambda>r. revision (h0 ! r)) sp)) \<and>
     (\<exists>undos. inverses' = undos @ inverses \<and>
        list_all2 (\<lambda>r u. invert cr (asTagged (h0 ! r)) True = Inr (tChange u) \<and>
                          tRollbackOf u = Some (revision (h0 ! r)))
          (rev sp) undos)"
  using assms
proof (induction sp arbitrary: s newHead inverses trp new)
  case Nil
  then show ?case by simp
next
  case (Cons r rest)
  let ?c = "heap s ! r"
  let ?Q = "\<lambda>r u. invert cr (asTagged (h0 ! r)) True = Inr (tChange u) \<and>
                          tRollbackOf u = Some (revision (h0 ! r))"
  from Cons.prems(2) have c: "?c = h0 ! r"
    and rest: "\<forall>x \<in> set rest. x < length (heap s) \<and> heap s ! x = h0 ! x"
    by auto
  have step: "\<exists>undos. inverses' = undos @ inverses \<and> list_all2 ?Q (rev (r # rest)) undos"
    if u: "invert cr (asTagged ?c) True = Inr u"
      and ih: "\<exists>undos. inverses' = undos @ tagRollbackInverse u t (revision ?c) # inverses \<and>
                 list_all2 ?Q (rev rest) undos"
    for u t
  proof -
    from ih obtain undos where
      inv: "inverses' = undos @ tagRollbackInverse u t (revision ?c) # inverses" and
      all: "list_all2 ?Q (rev rest) undos" by blast
    have "list_all2 ?Q (rev rest @ [r]) (undos @ [tagRollbackInverse u t (revision ?c)])"
      using all u c by (intro list_all2_appendI) (simp_all add: tagRollbackInverse_def)
    then have "list_all2 ?Q (rev (r # rest)) (undos @ [tagRollbackInverse u t (revision ?c)])"
      by simp
    moreover have "inverses' = (undos @ [tagRollbackInverse u t (revision ?c)]) @ inverses"
      using inv by simp
    ultimately show ?thesis by blast
  qed
  show ?case
  proof (cases "revision ?c \<in> S")
    case True
    from rebaseLoop_kept[OF Cons.prems(1) True] obtain chg u where
      u: "invert cr (asTagged ?c) True = Inr u" and
      run: "rebaseLoop cr S
       (s\<lparr>heap := heap s @
            [\<lparr>revision = revision ?c, sessionId = sessionId ?c,
              change = chg, parent = Some newHead\<rparr>],
          nextTag := Suc (nextTag s)\<rparr>)
       rest (length (heap s))
       (tagRollbackInverse u (nextTag s) (revision ?c) # inverses)
       (trp @ [\<lparr>tRevision = Some (revision ?c), tRollbackOf = None, tChange = chg\<rparr>])
       (new @ [length (heap s)]) = (s', Inr (newHead', inverses', trp', new'))"
      (is "rebaseLoop cr S ?s2 _ _ _ _ _ = _")
      by blast
    have rest2: "\<forall>x \<in> set rest. x < length (heap ?s2) \<and> heap ?s2 ! x = h0 ! x"
      using rest by (auto simp: nth_append)
    from rebaseLoop_prefix[OF run] obtain ys where
      h': "heap s' = heap s @ [\<lparr>revision = revision ?c,
             sessionId = sessionId ?c, change = chg, parent = Some newHead\<rparr>] @ ys"
      by (auto simp: prefix_def)
    then have len: "length (heap s) < length (heap s')" by simp
    from h' have m: "revision (heap s' ! length (heap s)) = revision ?c"
      by (simp add: nth_append)
    have up: "[length (heap s)..<length (heap s')] =
                length (heap s) # [Suc (length (heap s))..<length (heap s')]"
      using len by (simp add: upt_conv_Cons)
    have l2: "length (heap ?s2) = Suc (length (heap s))" by simp
    note ih = Cons.IH[OF run rest2, unfolded l2]
    have "\<exists>undos. inverses' = undos @ inverses \<and> list_all2 ?Q (rev (r # rest)) undos"
      by (rule step[OF u]) (use ih in blast)
    with ih m True c show ?thesis by (simp add: up)
  next
    case False
    from rebaseLoop_cancelled[OF Cons.prems(1) False] obtain u where
      u: "invert cr (asTagged ?c) True = Inr u" and
      run: "rebaseLoop cr S (s\<lparr>nextTag := Suc (nextTag s)\<rparr>) rest newHead
       (tagRollbackInverse u (nextTag s) (revision ?c) # inverses) trp new =
       (s', Inr (newHead', inverses', trp', new'))"
      (is "rebaseLoop cr S ?s2 _ _ _ _ _ = _")
      by blast
    have rest2: "\<forall>x \<in> set rest. x < length (heap ?s2) \<and> heap ?s2 ! x = h0 ! x"
      using rest by auto
    have l2: "length (heap ?s2) = length (heap s)" by simp
    note ih = Cons.IH[OF run rest2, unfolded l2]
    have "\<exists>undos. inverses' = undos @ inverses \<and> list_all2 ?Q (rev (r # rest)) undos"
      by (rule step[OF u]) (use ih in blast)
    with ih False c show ?thesis by simp
  qed
qed

lemma rebaseLoop_emits:
  assumes "rebaseLoop cr S s sp newHead inverses trp new =
             (s', Inr (newHead', inverses', trp', new'))"
    and "set sp \<subseteq> {..<length (heap s)}"
  shows "new' = new @ [length (heap s)..<length (heap s')] \<and>
     map (\<lambda>m. revision (heap s' ! m)) [length (heap s)..<length (heap s')] =
       filter (\<lambda>t. t \<in> S) (map (\<lambda>r. revision (heap s ! r)) sp) \<and>
     map tRevision trp' =
       map tRevision trp @ map Some (filter (\<lambda>t. t \<in> S) (map (\<lambda>r. revision (heap s ! r)) sp)) \<and>
     (\<exists>undos. inverses' = undos @ inverses \<and>
        list_all2 (\<lambda>r u. invert cr (asTagged (heap s ! r)) True = Inr (tChange u) \<and>
                          tRollbackOf u = Some (revision (heap s ! r)))
          (rev sp) undos)"
proof -
  from assms(2) have "\<forall>x \<in> set sp. x < length (heap s) \<and> heap s ! x = heap s ! x" by auto
  from rebaseLoop_trace[OF assms(1) this] rebaseLoop_new[OF assms(1)]
  show ?thesis by simp
qed

lemma rebaseLoop_append:
  "rebaseLoop cr S s (xs @ ys) newHead inverses trp new =
     (case rebaseLoop cr S s xs newHead inverses trp new of
        (s1, Inl e) \<Rightarrow> (s1, Inl e)
      | (s1, Inr (newHead1, inverses1, trp1, new1)) \<Rightarrow>
          rebaseLoop cr S s1 ys newHead1 inverses1 trp1 new1)"
  by (induction xs arbitrary: s newHead inverses trp new)
     (auto simp: Let_def split: sum.splits prod.splits)

lemma rebaseLoop_tags:
  "rebaseLoop cr S s sp newHead inverses trp new = (s', Inr (newHead', inverses', trp', new')) \<Longrightarrow>
     nextTag s' = nextTag s + length sp \<and>
     (\<exists>undos. inverses' = undos @ inverses \<and>
        map tRevision undos = map Some (rev [nextTag s..<nextTag s + length sp]))"
proof (induction sp arbitrary: s newHead inverses trp new)
  case Nil
  then show ?case by simp
next
  case (Cons r rest)
  let ?c = "heap s ! r"
  have up: "[nextTag s..<nextTag s + length (r # rest)] =
              nextTag s # [Suc (nextTag s)..<Suc (nextTag s) + length rest]"
    by (simp add: upt_conv_Cons del: upt_Suc)
  have step: ?case
    if run: "rebaseLoop cr S s2 rest nh2 (tagRollbackInverse u (nextTag s) (revision ?c) # inverses)
               trp2 new2 = (s', Inr (newHead', inverses', trp', new'))"
      and tag: "nextTag s2 = Suc (nextTag s)"
    for s2 nh2 trp2 new2 u
  proof -
    from Cons.IH[OF run] tag obtain undos where
      n: "nextTag s' = Suc (nextTag s) + length rest" and
      i: "inverses' = undos @ tagRollbackInverse u (nextTag s) (revision ?c) # inverses" and
      t: "map tRevision undos = map Some (rev [Suc (nextTag s)..<Suc (nextTag s) + length rest])"
      by auto
    have "map tRevision (undos @ [tagRollbackInverse u (nextTag s) (revision ?c)]) =
        map tRevision undos @ [Some (nextTag s)]"
      by (simp add: tagRollbackInverse_def)
    then have "map tRevision (undos @ [tagRollbackInverse u (nextTag s) (revision ?c)]) =
        map Some (rev (nextTag s # [Suc (nextTag s)..<Suc (nextTag s) + length rest]))"
      by (simp only: t rev.simps map_append list.map)
    then have tags: "map tRevision (undos @ [tagRollbackInverse u (nextTag s) (revision ?c)]) =
        map Some (rev [nextTag s..<nextTag s + length (r # rest)])"
      by (simp only: up)
    have "inverses' = (undos @ [tagRollbackInverse u (nextTag s) (revision ?c)]) @ inverses"
      using i by simp
    moreover note tags
    moreover have "nextTag s' = nextTag s + length (r # rest)" using n by simp
    ultimately show ?thesis by blast
  qed
  show ?case
  proof (cases "revision ?c \<in> S")
    case True
    from rebaseLoop_kept[OF Cons.prems True] show ?thesis
      by (elim exE conjE) (rule step, assumption, simp)
  next
    case False
    from rebaseLoop_cancelled[OF Cons.prems False] show ?thesis
      by (elim exE conjE) (rule step, assumption, simp)
  qed
qed

lemma rebaseLoop_path:
  "rebaseLoop cr S s sp newHead inverses trp new = (s', Inr (newHead', inverses', trp', new')) \<Longrightarrow>
     trp' = trp @ map (\<lambda>m. asTagged (heap s' ! m)) [length (heap s)..<length (heap s')]"
proof (induction sp arbitrary: s newHead inverses trp new)
  case Nil
  then show ?case by simp
next
  case (Cons r rest)
  let ?c = "heap s ! r"
  show ?case
  proof (cases "revision ?c \<in> S")
    case True
    from rebaseLoop_kept[OF Cons.prems True] obtain chg u where
      run: "rebaseLoop cr S
       (s\<lparr>heap := heap s @
            [\<lparr>revision = revision ?c, sessionId = sessionId ?c,
              change = chg, parent = Some newHead\<rparr>],
          nextTag := Suc (nextTag s)\<rparr>)
       rest (length (heap s))
       (tagRollbackInverse u (nextTag s) (revision ?c) # inverses)
       (trp @ [\<lparr>tRevision = Some (revision ?c), tRollbackOf = None, tChange = chg\<rparr>])
       (new @ [length (heap s)]) = (s', Inr (newHead', inverses', trp', new'))"
      by blast
    from rebaseLoop_prefix[OF run] obtain ys where
      h': "heap s' = heap s @ [\<lparr>revision = revision ?c,
             sessionId = sessionId ?c, change = chg, parent = Some newHead\<rparr>] @ ys"
      by (auto simp: prefix_def)
    then have len: "length (heap s) < length (heap s')" by simp
    from h' have m: "asTagged (heap s' ! length (heap s)) =
        \<lparr>tRevision = Some (revision ?c), tRollbackOf = None, tChange = chg\<rparr>"
      by (simp add: nth_append asTagged_def)
    have up: "[length (heap s)..<length (heap s')] =
                length (heap s) # [Suc (length (heap s))..<length (heap s')]"
      using len by (simp add: upt_conv_Cons)
    from Cons.IH[OF run] m show ?thesis by (simp add: up)
  next
    case False
    from rebaseLoop_cancelled[OF Cons.prems False] obtain u where
      run: "rebaseLoop cr S (s\<lparr>nextTag := Suc (nextTag s)\<rparr>) rest newHead
       (tagRollbackInverse u (nextTag s) (revision ?c) # inverses) trp new =
       (s', Inr (newHead', inverses', trp', new'))"
      by blast
    from Cons.IH[OF run] show ?thesis by simp
  qed
qed


lemma rebaseLoop_at:
  assumes run: "rebaseLoop cr S s (pre @ r # post) newHead inverses trp new =
                  (s', Inr (newHead', inverses', trp', new'))"
    and valid: "set (pre @ r # post) \<subseteq> {..<length (heap s)}"
  shows "\<exists>undosPre u undosPost.
     inverses' = undosPost @ u # undosPre @ inverses \<and>
     list_all2 (\<lambda>x v. invert cr (asTagged (heap s ! x)) True = Inr (tChange v) \<and>
                       tRollbackOf v = Some (revision (heap s ! x))) (rev pre) undosPre \<and>
     invert cr (asTagged (heap s ! r)) True = Inr (tChange u) \<and>
     tRollbackOf u = Some (revision (heap s ! r)) \<and>
     list_all2 (\<lambda>x v. invert cr (asTagged (heap s ! x)) True = Inr (tChange v) \<and>
                       tRollbackOf v = Some (revision (heap s ! x))) (rev post) undosPost \<and>
     (revision (heap s ! r) \<in> S \<longrightarrow>
        (\<exists>chg.
           rebaseChangeOverChanges cr (change (heap s ! r))
             (undosPre @ inverses @ trp @
              map (\<lambda>m. asTagged (heap s' ! m))
                [length (heap s)..<
                 length (heap s) + length (filter (\<lambda>x. revision (heap s ! x) \<in> S) pre)]) =
             Inr chg \<and>
           heap s' ! (length (heap s) + length (filter (\<lambda>x. revision (heap s ! x) \<in> S) pre)) =
             \<lparr>revision = revision (heap s ! r), sessionId = sessionId (heap s ! r),
              change = chg,
              parent = Some (last (newHead #
                [length (heap s)..<
                 length (heap s) + length (filter (\<lambda>x. revision (heap s ! x) \<in> S) pre)]))\<rparr>))"
proof -
  let ?Q = "\<lambda>x v. invert cr (asTagged (heap s ! x)) True = Inr (tChange v) \<and>
                       tRollbackOf v = Some (revision (heap s ! x))"
  let ?c = "heap s ! r"
  let ?n1 = "length (heap s) + length (filter (\<lambda>x. revision (heap s ! x) \<in> S) pre)"
  from run obtain s1 nh1 inv1 trp1 new1 where
    run1: "rebaseLoop cr S s pre newHead inverses trp new = (s1, Inr (nh1, inv1, trp1, new1))" and
    run2: "rebaseLoop cr S s1 (r # post) nh1 inv1 trp1 new1 =
             (s', Inr (newHead', inverses', trp', new'))"
    unfolding rebaseLoop_append[of cr S s pre "r # post"]
    by (auto split: prod.splits sum.splits)
  from valid have vpre: "\<forall>x \<in> set pre. x < length (heap s) \<and> heap s ! x = heap s ! x"
    and r: "r < length (heap s)"
    and vpost: "\<forall>x \<in> set post. x < length (heap s)" by auto
  from rebaseLoop_prefix[OF run1] obtain ys1 where h1: "heap s1 = heap s @ ys1"
    by (auto simp: prefix_def)
  from rebaseLoop_prefix[OF run2] obtain ys2 where h2: "heap s' = heap s1 @ ys2"
    by (auto simp: prefix_def)
  from rebaseLoop_trace[OF run1 vpre] obtain undosPre where
    count: "map (\<lambda>m. revision (heap s1 ! m)) [length (heap s)..<length (heap s1)] =
              filter (\<lambda>t. t \<in> S) (map (\<lambda>x. revision (heap s ! x)) pre)" and
    inv1: "inv1 = undosPre @ inverses" and
    allPre: "list_all2 ?Q (rev pre) undosPre"
    by blast
  from count have "length [length (heap s)..<length (heap s1)] =
      length (filter (\<lambda>t. t \<in> S) (map (\<lambda>x. revision (heap s ! x)) pre))"
    by (metis length_map)
  then have n1: "length (heap s1) = ?n1"
    using h1 by (simp add: filter_map comp_def)
  have "map (\<lambda>m. asTagged (heap s1 ! m)) [length (heap s)..<length (heap s1)] =
        map (\<lambda>m. asTagged (heap s' ! m)) [length (heap s)..<length (heap s1)]"
    by (intro map_cong) (auto simp: h2 nth_append)
  with rebaseLoop_path[OF run1]
  have trp1: "trp1 = trp @ map (\<lambda>m. asTagged (heap s' ! m)) [length (heap s)..<?n1]"
    by (simp add: n1)
  from rebaseLoop_new[OF run1]
  have nh1: "nh1 = last (newHead # [length (heap s)..<?n1])" by (simp add: n1)
  have c1: "heap s1 ! r = ?c" using r by (simp add: h1 nth_append)
  have tail: "\<exists>undosPost. inverses' = undosPost @ u # inv1 \<and> list_all2 ?Q (rev post) undosPost"
    if "rebaseLoop cr S s2 post nh2 (u # inv1) trp2 new2 =
          (s', Inr (newHead', inverses', trp', new'))"
      and "prefix (heap s1) (heap s2)"
    for s2 nh2 u trp2 new2
  proof -
    from that(2) vpost have "\<forall>x \<in> set post. x < length (heap s2) \<and> heap s2 ! x = heap s ! x"
      by (auto simp: prefix_def h1 nth_append)
    from rebaseLoop_trace[OF that(1) this] show ?thesis by blast
  qed
  show ?thesis
  proof (cases "revision ?c \<in> S")
    case True
    with c1 have k: "revision (heap s1 ! r) \<in> S" by simp
    from rebaseLoop_kept[OF run2 k] obtain chg iu where
      chg: "rebaseChangeOverChanges cr (change (heap s1 ! r)) (inv1 @ trp1) = Inr chg" and
      iu: "invert cr (asTagged (heap s1 ! r)) True = Inr iu" and
      run3: "rebaseLoop cr S
       (s1\<lparr>heap := heap s1 @
            [\<lparr>revision = revision (heap s1 ! r), sessionId = sessionId (heap s1 ! r),
              change = chg, parent = Some nh1\<rparr>],
          nextTag := Suc (nextTag s1)\<rparr>)
       post (length (heap s1))
       (tagRollbackInverse iu (nextTag s1) (revision (heap s1 ! r)) # inv1)
       (trp1 @ [\<lparr>tRevision = Some (revision (heap s1 ! r)), tRollbackOf = None, tChange = chg\<rparr>])
       (new1 @ [length (heap s1)]) = (s', Inr (newHead', inverses', trp', new'))"
      (is "rebaseLoop cr S ?s2 _ _ (?u # _) _ _ = _")
      by blast
    from rebaseLoop_prefix[OF run3] obtain ys3 where
      "heap s' = heap ?s2 @ ys3" by (auto simp: prefix_def)
    then have rec: "heap s' ! length (heap s1) =
        \<lparr>revision = revision ?c, sessionId = sessionId ?c, change = chg, parent = Some nh1\<rparr>"
      by (simp add: nth_append c1)
    from tail[OF run3] obtain undosPost where
      "inverses' = undosPost @ ?u # inv1" "list_all2 ?Q (rev post) undosPost" by auto
    moreover have "invert cr (asTagged ?c) True = Inr (tChange ?u)"
      "tRollbackOf ?u = Some (revision ?c)"
      using iu c1 by (simp_all add: tagRollbackInverse_def)
    moreover have "rebaseChangeOverChanges cr (change ?c)
             (undosPre @ inverses @ trp @
              map (\<lambda>m. asTagged (heap s' ! m)) [length (heap s)..<?n1]) = Inr chg"
      using chg by (simp add: c1 inv1 trp1)
    moreover have "heap s' ! ?n1 =
        \<lparr>revision = revision ?c, sessionId = sessionId ?c, change = chg,
         parent = Some (last (newHead # [length (heap s)..<?n1]))\<rparr>"
      using rec by (simp only: n1 nh1)
    ultimately show ?thesis using allPre inv1 by (intro exI[of _ undosPre] exI[of _ ?u] exI[of _ undosPost]) simp
  next
    case False
    with c1 have k: "revision (heap s1 ! r) \<notin> S" by simp
    from rebaseLoop_cancelled[OF run2 k] obtain iu where
      iu: "invert cr (asTagged (heap s1 ! r)) True = Inr iu" and
      run3: "rebaseLoop cr S (s1\<lparr>nextTag := Suc (nextTag s1)\<rparr>) post nh1
       (tagRollbackInverse iu (nextTag s1) (revision (heap s1 ! r)) # inv1) trp1 new1 =
       (s', Inr (newHead', inverses', trp', new'))"
      (is "rebaseLoop cr S ?s2 _ _ (?u # _) _ _ = _")
      by blast
    from tail[OF run3] obtain undosPost where
      "inverses' = undosPost @ ?u # inv1" "list_all2 ?Q (rev post) undosPost" by auto
    moreover have "invert cr (asTagged ?c) True = Inr (tChange ?u)"
      "tRollbackOf ?u = Some (revision ?c)"
      using iu c1 by (simp_all add: tagRollbackInverse_def)
    ultimately show ?thesis using allPre inv1 False
      by (intro exI[of _ undosPre] exI[of _ ?u] exI[of _ undosPost]) simp
  qed
qed

lemma rebaseBranch_fast:
  assumes "findCommonAncestor (heap s) (Some sourceHead, []) (Some targetHead, []) =
             Inr (Some ancestor, sourcePath, targetPath)"
    and "targetCommit \<in> set targetPath"
    and "scanTargetPath (heap s) (nat (findIndex (\<lambda>r. r = targetCommit) targetPath)) targetPath 0
           (set (map (\<lambda>r. revision (heap s ! r)) sourcePath))
           (nat (findIndex (\<lambda>r. r = targetCommit) targetPath)) = (sourceSet, newBaseIndex)"
    and "stripCommonPrefix (heap s)
           (min (length sourcePath) (length (take (newBaseIndex + 1) targetPath)))
           sourcePath (take (newBaseIndex + 1) targetPath) = Inr (sourcePath', [])"
  shows "rebaseBranch cr s sourceHead targetCommit targetHead =
     (case reparent s (targetPath ! newBaseIndex) sourcePath' (take (newBaseIndex + 1) targetPath) of
        (s', new) \<Rightarrow>
          (s', Inr (last new, None,
             \<lparr>newBase = targetPath ! newBaseIndex, deletedSourceCommits = sourcePath,
              newSourceCommits = new\<rparr>)))"
proof -
  from assms(2) have "findIndex (\<lambda>r. r = targetCommit) targetPath \<noteq> - 1"
    by (auto simp: findIndex_absent)
  with assms(1,3,4) show ?thesis
    by (simp add: rebaseBranch_def Let_def)
qed

lemma newBaseIndex_bounds:
  assumes "targetCommit \<in> set targetPath"
    and "scanTargetPath h (nat (findIndex (\<lambda>r. r = targetCommit) targetPath)) targetPath 0
           S (nat (findIndex (\<lambda>r. r = targetCommit) targetPath)) = (S', newBaseIndex)"
  shows "nat (findIndex (\<lambda>r. r = targetCommit) targetPath) \<le> newBaseIndex"
    and "newBaseIndex < length targetPath"
    and "targetPath ! nat (findIndex (\<lambda>r. r = targetCommit) targetPath) = targetCommit"
proof -
  from assms(1) have "\<exists>x \<in> set targetPath. x = targetCommit" by simp
  from findIndex_bounds[of targetPath "\<lambda>r. r = targetCommit", OF this]
  have b: "nat (findIndex (\<lambda>r. r = targetCommit) targetPath) < length targetPath"
    and t: "targetPath ! nat (findIndex (\<lambda>r. r = targetCommit) targetPath) = targetCommit"
    by auto
  from scanTargetPath_bounds[OF assms(2)] b
  show "nat (findIndex (\<lambda>r. r = targetCommit) targetPath) \<le> newBaseIndex"
    and "newBaseIndex < length targetPath" by auto
  from t show "targetPath ! nat (findIndex (\<lambda>r. r = targetCommit) targetPath) = targetCommit" .
qed

lemma path_in_store:
  assumes "wellFormed h" and "a < length h" and "b < length h"
    and "findCommonAncestor h (Some a, []) (Some b, []) = Inr (Some c, pathA, pathB)"
  shows "set pathA \<subseteq> {..<length h}" and "set pathB \<subseteq> {..<length h}"
proof -
  from findCommonAncestor_found(1,2)[OF assms]
  have "set pathA \<subseteq> set (chain h a)" "set pathB \<subseteq> set (chain h b)" by auto
  then show "set pathA \<subseteq> {..<length h}" and "set pathB \<subseteq> {..<length h}"
    by (auto dest: chain_bound)
qed

section \<open>Parent links of the new commits\<close>

lemma chain_links:
  "chain h a = xs @ rest \<Longrightarrow> successively (\<lambda>c p. parent (h ! c) = Some p) xs"
proof (induction xs arbitrary: a)
  case Nil
  then show ?case by simp
next
  case (Cons x xs)
  show ?case
  proof (cases xs)
    case Nil
    then show ?thesis by simp
  next
    case (Cons y ys)
    with Cons.prems have "chain h a = x # y # (ys @ rest)" by simp
    from chain_tail[OF this] have "chain h y = xs @ rest" "parent (h ! x) = Some y"
      using Cons by auto
    with Cons.IH[of y] Cons show ?thesis by simp
  qed
qed

lemma path_links:
  assumes "wellFormed h" and "a < length h" and "b < length h"
    and "findCommonAncestor h (Some a, []) (Some b, []) = Inr (Some c, pathA, pathB)"
  shows "successively (\<lambda>p c. parent (h ! c) = Some p) pathB"
proof -
  from findCommonAncestor_found(2)[OF assms]
  have "successively (\<lambda>c p. parent (h ! c) = Some p) (rev pathB)"
    by (rule chain_links)
  then show ?thesis by simp
qed

lemma successively_take: "successively P xs \<Longrightarrow> successively P (take k xs)"
  using successively_append_iff[of P "take k xs" "drop k xs"] by simp

lemma reused_then_created:
  assumes nbi: "newBaseIndex < length targetPath"
    and old: "set targetPath \<subseteq> {..<length h}"
    and links: "successively (\<lambda>p c. parent (h ! c) = Some p) targetPath"
    and grows: "prefix h h'"
    and fresh: "\<forall>c \<in> set created. length h \<le> c"
    and created: "successively (\<lambda>p c. parent (h' ! c) = Some p)
                    (targetPath ! newBaseIndex # created)"
  shows "successively (\<lambda>p c. parent (h' ! c) = Some p)
           (take (newBaseIndex + 1) targetPath @ created) \<and>
         filter (\<lambda>c. length h \<le> c) (take (newBaseIndex + 1) targetPath @ created) = created \<and>
         last (x # take (newBaseIndex + 1) targetPath @ created) =
           last (targetPath ! newBaseIndex # created)"
proof -
  let ?trp = "take (newBaseIndex + 1) targetPath"
  from grows obtain ys where h': "h' = h @ ys" by (auto simp: prefix_def)
  have sub: "set ?trp \<subseteq> {..<length h}"
    using old by (meson order_trans set_take_subset)
  have ne: "?trp \<noteq> []" and last: "last ?trp = targetPath ! newBaseIndex"
    using nbi by (simp_all add: take_Suc_conv_app_nth)
  have "successively (\<lambda>p c. parent (h ! c) = Some p) ?trp"
    using links by (rule successively_take)
  moreover have "successively (\<lambda>p c. parent (h ! c) = Some p) ?trp \<longleftrightarrow>
      successively (\<lambda>p c. parent (h' ! c) = Some p) ?trp"
    using sub by (intro successively_cong) (auto simp: h' nth_append)
  ultimately have 1: "successively (\<lambda>p c. parent (h' ! c) = Some p) ?trp" by simp
  from created have 2: "successively (\<lambda>p c. parent (h' ! c) = Some p) created"
    and 3: "created \<noteq> [] \<longrightarrow> parent (h' ! hd created) = Some (targetPath ! newBaseIndex)"
    by (auto simp: successively_Cons)
  from 1 2 3 last
  have a: "successively (\<lambda>p c. parent (h' ! c) = Some p) (?trp @ created)"
    unfolding successively_append_iff by auto
  have "filter (\<lambda>c. length h \<le> c) ?trp = []"
    using sub by (auto simp: filter_empty_conv)
  moreover have "filter (\<lambda>c. length h \<le> c) created = created"
    using fresh by (auto simp: filter_id_conv)
  ultimately have b: "filter (\<lambda>c. length h \<le> c) (?trp @ created) = created" by simp
  have c: "last (x # ?trp @ created) = last (targetPath ! newBaseIndex # created)"
    using ne last by (cases "created = []") auto
  from a b c show ?thesis by blast
qed

text \<open>
  The target rebase path is empty after the common range has been removed exactly when it
  is, by revision and in order, a prefix of the source path.
\<close>

lemma stripCommonPrefix_empty_iff:
  "stripCommonPrefix h (min (length sp) (length trp)) sp trp = Inr (sp', []) \<longleftrightarrow>
     prefix (map (\<lambda>r. revision (h ! r)) trp) (map (\<lambda>r. revision (h ! r)) sp) \<and>
     sp' = drop (length trp) sp"
proof
  assume "stripCommonPrefix h (min (length sp) (length trp)) sp trp = Inr (sp', [])"
  from stripCommonPrefix_drops[OF this] obtain k where
    sp': "sp' = drop k sp" and e: "[] = drop k trp" and k: "k \<le> min (length sp) (length trp)"
    and eq: "map (\<lambda>r. revision (h ! r)) (take k sp) = map (\<lambda>r. revision (h ! r)) (take k trp)"
    by blast
  from e k have kl: "k = length trp" by simp
  with eq have "map (\<lambda>r. revision (h ! r)) trp = take (length trp) (map (\<lambda>r. revision (h ! r)) sp)"
    by (simp add: take_map)
  then have "prefix (map (\<lambda>r. revision (h ! r)) trp) (map (\<lambda>r. revision (h ! r)) sp)"
    by (metis take_is_prefix)
  with sp' kl show "prefix (map (\<lambda>r. revision (h ! r)) trp) (map (\<lambda>r. revision (h ! r)) sp) \<and>
     sp' = drop (length trp) sp" by simp
next
  assume "prefix (map (\<lambda>r. revision (h ! r)) trp) (map (\<lambda>r. revision (h ! r)) sp) \<and>
     sp' = drop (length trp) sp"
  then show "stripCommonPrefix h (min (length sp) (length trp)) sp trp = Inr (sp', [])"
    by (simp add: stripCommonPrefix_prefix)
qed

section \<open>The new base on the target branch\<close>

text \<open>
  When the target commit is on the target branch, that is, when it is the target head or
  one of its ancestors, the new base of a call that returns is the target commit or one
  of its descendants.
\<close>

lemma newBase_on_target_branch:
  assumes wf: "wellFormed (heap s)"
    and heads: "sourceHead < length (heap s)" "targetHead < length (heap s)"
    and on_branch: "targetCommit \<in> set (chain (heap s) targetHead)"
    and ret: "rebaseBranch cr s sourceHead targetCommit targetHead =
                (s', Inr (newHead, sourceChange, commits))"
  shows "targetCommit \<in> set (chain (heap s) (newBase commits))"
proof -
  from rebaseBranch_returns[OF ret] obtain ancestor sourcePath targetPath where
    paths: "findCommonAncestor (heap s) (Some sourceHead, []) (Some targetHead, []) =
       Inr (Some ancestor, sourcePath, targetPath)" and
    cases: "targetCommit \<notin> set targetPath \<and> newBase commits = ancestor
      \<or> targetCommit \<in> set targetPath \<and>
        (\<exists>sourceSet newBaseIndex.
           scanTargetPath (heap s) (nat (findIndex (\<lambda>r. r = targetCommit) targetPath)) targetPath 0
             (set (map (\<lambda>r. revision (heap s ! r)) sourcePath))
             (nat (findIndex (\<lambda>r. r = targetCommit) targetPath)) = (sourceSet, newBaseIndex) \<and>
           newBase commits = targetPath ! newBaseIndex)"
    by fastforce
  have th: "chain (heap s) targetHead = rev targetPath @ chain (heap s) ancestor"
    using wf heads paths by (rule findCommonAncestor_found(2))
  from cases show ?thesis
  proof (elim disjE conjE exE)
    assume "targetCommit \<notin> set targetPath" "newBase commits = ancestor"
    with on_branch th show ?thesis by simp
  next
    fix sourceSet newBaseIndex
    assume found: "targetCommit \<in> set targetPath"
      and scan: "scanTargetPath (heap s) (nat (findIndex (\<lambda>r. r = targetCommit) targetPath)) targetPath 0
             (set (map (\<lambda>r. revision (heap s ! r)) sourcePath))
             (nat (findIndex (\<lambda>r. r = targetCommit) targetPath)) = (sourceSet, newBaseIndex)"
      and base: "newBase commits = targetPath ! newBaseIndex"
    let ?i = "nat (findIndex (\<lambda>r. r = targetCommit) targetPath)"
    from newBaseIndex_bounds[OF found scan]
    have le: "?i \<le> newBaseIndex" and nbi: "newBaseIndex < length targetPath"
      and at: "targetPath ! ?i = targetCommit" by auto
    have split: "targetPath = take newBaseIndex targetPath @ targetPath ! newBaseIndex #
                   drop (Suc newBaseIndex) targetPath"
      using nbi by (rule id_take_nth_drop)
    have "rev targetPath = rev (drop (Suc newBaseIndex) targetPath) @
            targetPath ! newBaseIndex # rev (take newBaseIndex targetPath)"
      by (subst split) simp
    with th have "chain (heap s) targetHead = rev (drop (Suc newBaseIndex) targetPath) @
            targetPath ! newBaseIndex # (rev (take newBaseIndex targetPath) @ chain (heap s) ancestor)"
      by simp
    then have c: "chain (heap s) (targetPath ! newBaseIndex) =
        targetPath ! newBaseIndex # (rev (take newBaseIndex targetPath) @ chain (heap s) ancestor)"
      by (rule chain_suffix)
    have "targetCommit \<in> set (take (Suc newBaseIndex) targetPath)"
      using le nbi at by (auto simp: in_set_conv_nth intro!: exI[of _ ?i])
    then have "targetCommit \<in> set (targetPath ! newBaseIndex # rev (take newBaseIndex targetPath))"
      using nbi by (simp add: take_Suc_conv_app_nth)
    with c base show ?thesis by auto
  qed
qed

section \<open>The cancel-out scenario\<close>

lemma cancelOut_paths:
  "findCommonAncestor (heap cancelOut) (Some 4, []) (Some 2, []) = Inr (Some 0, [3, 4], [1, 2])"
  by (simp add: findCommonAncestor_def fcaLoop.simps fcaBody_def visit_def cancelOut_def
      commit_def)

lemma cancelOut_wellFormed: "wellFormed (heap cancelOut)"
  by (simp add: wellFormed_def cancelOut_def commit_def upt_rec)

lemma cancelOut_chains:
  "chain (heap cancelOut) 4 = [4, 3, 0]" "chain (heap cancelOut) 2 = [2, 1, 0]"
  "chain (heap cancelOut) 0 = [0]"
  by (simp_all add: chain.simps cancelOut_def commit_def)


text \<open>
  Claim C1. In the cancel-out scenario, rebasing the source branch with head \<open>D\<close>
  (reference 4) onto \<open>C\<close> (reference 2), the head of the target branch, returns the new
  base \<open>C\<close>, a new head \<open>D'\<close> (the new reference 5) with the revision of \<open>D\<close>, parent
  \<open>C\<close> and the change of \<open>D\<close> rebased over \<open>C\<close> alone, the deleted commits \<open>[B', D]\<close>
  and the new commits \<open>[B, C, D']\<close>, whatever the algebra is, as long as its calls return.
\<close>

theorem cancel_out_scenario:
  assumes "rebase cr 3 \<lparr>tRevision = Some 2, tRollbackOf = None, tChange = 2\<rparr> = Inr d'"
    and "invert cr \<lparr>tRevision = Some 3, tRollbackOf = None, tChange = 3\<rparr> True = Inr u"
    and "compose cr
           [\<lparr>tRevision = Some 4, tRollbackOf = Some 3, tChange = u\<rparr>,
            \<lparr>tRevision = Some 2, tRollbackOf = None, tChange = 2\<rparr>,
            \<lparr>tRevision = Some 3, tRollbackOf = None, tChange = d'\<rparr>] = Inr net"
  shows "rebaseBranch cr cancelOut 4 2 2 =
     (\<lparr>heap = heap cancelOut @
               [\<lparr>revision = 3, sessionId = ''session'', change = d', parent = Some 2\<rparr>],
       nextTag = 5\<rparr>,
      Inr (5, Some net,
           \<lparr>newBase = 2, deletedSourceCommits = [3, 4], newSourceCommits = [1, 2, 5]\<rparr>))"
  using assms
  by (simp add: rebaseBranch_def cancelOut_paths)
     (simp add: cancelOut_def commit_def asTagged_def alloc_def inverseFromCommit_def
        mintRevisionTag_def tagRollbackInverse_def)

theorem cancel_out_scenario_witness:
  "rebaseBranch counterAlgebra cancelOut 4 2 2 =
     (\<lparr>heap = heap cancelOut @
               [\<lparr>revision = 3, sessionId = ''session'', change = 3, parent = Some 2\<rparr>],
       nextTag = 5\<rparr>,
      Inr (5, Some 2,
           \<lparr>newBase = 2, deletedSourceCommits = [3, 4], newSourceCommits = [1, 2, 5]\<rparr>))"
  using cancel_out_scenario [of counterAlgebra 3 "- 3" 2]
  by (simp add: counterAlgebra_def)

section \<open>The common ancestor\<close>

text \<open>
  Claim C4. In a well-formed store, for two commits whose parent chains meet,
  \<^verbatim>\<open>findCommonAncestor\<close> returns a commit \<open>c\<close> with two paths such that: each parent
  chain, read from the root down, is the chain of \<open>c\<close> followed by the path of that
  descendant (so the path runs from ancestor to descendant, without \<open>c\<close> and with the
  descendant); the common ancestors of the two commits are exactly \<open>c\<close> and its
  ancestors, and no commit of either path is an ancestor of the other descendant (\<open>c\<close> is
  the deepest common ancestor); and when the two commits are the same, \<open>c\<close> is that
  commit and both paths are empty.
\<close>

theorem common_ancestor_deepest:
  assumes wf: "wellFormed h"
    and related: "set (chain h a) \<inter> set (chain h b) \<noteq> {}"
  shows "\<exists>c pathA pathB.
           findCommonAncestor h (Some a, []) (Some b, []) = Inr (Some c, pathA, pathB) \<and>
           c < length h \<and>
           rev (chain h a) = rev (chain h c) @ pathA \<and>
           rev (chain h b) = rev (chain h c) @ pathB \<and>
           set (chain h a) \<inter> set (chain h b) = set (chain h c) \<and>
           set pathA \<inter> set (chain h b) = {} \<and> set pathB \<inter> set (chain h a) = {} \<and>
           (a = b \<longrightarrow> c = a \<and> pathA = [] \<and> pathB = [])"
proof -
  from related have a: "a < length h" and b: "b < length h"
    by (auto simp: not_less chain_outside)
  let ?res = "findCommonAncestor h (Some a, []) (Some b, [])"
  have spec: "fcaSpec h (Some a) (Some b) ?res"
    using wf a b by (intro findCommonAncestor_correct) auto
  with related obtain c pathA pathB where
    res: "?res = Inr (Some c, pathA, pathB)" and c: "c < length h" and
    ca: "chain h a = rev pathA @ chain h c" and cb: "chain h b = rev pathB @ chain h c" and
    dis: "set pathA \<inter> set pathB = {}"
    by (auto simp: fcaSpec_def split: sum.splits option.splits)
  from ca chain_distinct[of h a] have da: "set pathA \<inter> set (chain h c) = {}" by auto
  from cb chain_distinct[of h b] have db: "set pathB \<inter> set (chain h c) = {}" by auto
  have same: "c = a \<and> pathA = [] \<and> pathB = []" if "a = b"
    using that res by (simp add: findCommonAncestor_def)
  have "set (chain h a) \<inter> set (chain h b) = set (chain h c)"
    using da db dis by (auto simp: ca cb)
  moreover have "set pathA \<inter> set (chain h b) = {}" "set pathB \<inter> set (chain h a) = {}"
    using da db dis by (auto simp: ca cb)
  moreover have "rev (chain h a) = rev (chain h c) @ pathA" "rev (chain h b) = rev (chain h c) @ pathB"
    by (simp_all add: ca cb)
  ultimately show ?thesis using res c same by blast
qed


theorem common_ancestor_deepest_witness:
  "wellFormed (heap cancelOut) \<and>
   set (chain (heap cancelOut) 4) \<inter> set (chain (heap cancelOut) 2) \<noteq> {} \<and>
   findCommonAncestor (heap cancelOut) (Some 4, []) (Some 2, []) = Inr (Some 0, [3, 4], [1, 2]) \<and>
   rev (chain (heap cancelOut) 4) = rev (chain (heap cancelOut) 0) @ [3, 4] \<and>
   rev (chain (heap cancelOut) 2) = rev (chain (heap cancelOut) 0) @ [1, 2] \<and>
   set (chain (heap cancelOut) 4) \<inter> set (chain (heap cancelOut) 2) = set (chain (heap cancelOut) 0)"
  using common_ancestor_deepest [of "heap cancelOut" 4 2]
  by (simp add: cancelOut_wellFormed cancelOut_paths cancelOut_chains)


section \<open>Unrelated branches\<close>

text \<open>
  Claim C6. In a well-formed store, when the parent chains of the source head and of the
  target head do not meet, \<^verbatim>\<open>rebaseBranch\<close> and \<^verbatim>\<open>rebaseChange\<close> both stop with their
  assertion failure; nothing is returned and the state is the one before the call.
\<close>

theorem unrelated_branches_fail:
  assumes wf: "wellFormed (heap s)"
    and heads: "sourceHead < length (heap s)" "targetHead < length (heap s)"
    and unrelated: "set (chain (heap s) sourceHead) \<inter> set (chain (heap s) targetHead) = {}"
  shows "rebaseBranch cr s sourceHead targetCommit targetHead =
           (s, Inl (AssertionFailed ''branches must be related'')) \<and>
         rebaseChange cr s chg sourceHead targetHead = (s, Inl (AssertionFailed ''0x576''))"
proof -
  let ?res = "findCommonAncestor (heap s) (Some sourceHead, []) (Some targetHead, [])"
  have spec: "fcaSpec (heap s) (Some sourceHead) (Some targetHead) ?res"
    using wf heads by (intro findCommonAncestor_correct) auto
  have "\<exists>pathA pathB. ?res = Inr (None, pathA, pathB)"
  proof (cases ?res)
    case (Inl e)
    with spec show ?thesis by (simp add: fcaSpec_def)
  next
    case (Inr r)
    obtain c pathA pathB where r: "r = (c, pathA, pathB)" by (cases r) auto
    show ?thesis
    proof (cases c)
      case None
      with Inr r show ?thesis by simp
    next
      case (Some x)
      with spec Inr r have "chain (heap s) sourceHead = rev pathA @ chain (heap s) x"
        "chain (heap s) targetHead = rev pathB @ chain (heap s) x" "x < length (heap s)"
        by (auto simp: fcaSpec_def)
      moreover from chain_step[OF wf \<open>x < length (heap s)\<close>]
      have "x \<in> set (chain (heap s) x)" by simp
      ultimately show ?thesis using unrelated by auto
    qed
  qed
  then show ?thesis
    by (auto simp: rebaseBranch_def rebaseChange_def)
qed


theorem unrelated_branches_fail_witness:
  "wellFormed (heap unrelated) \<and> (1 :: nat) < length (heap unrelated) \<and>
   (3 :: nat) < length (heap unrelated) \<and>
   set (chain (heap unrelated) 1) \<inter> set (chain (heap unrelated) 3) = {} \<and>
   rebaseBranch counterAlgebra unrelated 1 3 3 =
     (unrelated, Inl (AssertionFailed ''branches must be related'')) \<and>
   rebaseChange counterAlgebra unrelated 7 1 3 = (unrelated, Inl (AssertionFailed ''0x576''))"
proof -
  have wf: "wellFormed (heap unrelated)"
    by (simp add: wellFormed_def unrelated_def commit_def upt_rec)
  have len: "(1 :: nat) < length (heap unrelated)" "(3 :: nat) < length (heap unrelated)"
    by (simp_all add: unrelated_def)
  have dis: "set (chain (heap unrelated) 1) \<inter> set (chain (heap unrelated) 3) = {}"
    by (simp add: chain.simps unrelated_def commit_def)
  from unrelated_branches_fail [OF wf len dis, of counterAlgebra 3 7] wf len dis
  show ?thesis by simp
qed

section \<open>The target commit behind the ancestor\<close>

text \<open>
  Claim C7. In a well-formed store, when \<^verbatim>\<open>targetCommit\<close> is not on the path from the
  common ancestor to the target head because it is the ancestor or one of the ancestor's
  own ancestors, \<^verbatim>\<open>rebaseBranch\<close> returns the source head it was given, no cumulative
  change, empty lists of deleted and new commits, and the common ancestor as new base,
  and the state is unchanged.
\<close>

theorem target_commit_behind_ancestor:
  assumes wf: "wellFormed (heap s)"
    and heads: "sourceHead < length (heap s)" "targetHead < length (heap s)"
    and paths: "findCommonAncestor (heap s) (Some sourceHead, []) (Some targetHead, []) =
                  Inr (Some ancestor, sourcePath, targetPath)"
    and notfound: "targetCommit \<notin> set targetPath"
    and behind: "targetCommit \<in> set (chain (heap s) ancestor)"
  shows "rebaseBranch cr s sourceHead targetCommit targetHead =
           (s, Inr (sourceHead, None,
                \<lparr>newBase = ancestor, deletedSourceCommits = [], newSourceCommits = []\<rparr>))"
proof -
  have idx: "findIndex (\<lambda>r. r = targetCommit) targetPath = - 1"
    using notfound by (auto simp: findIndex_absent)
  have "chain (heap s) targetHead = rev targetPath @ chain (heap s) ancestor"
    using wf heads paths by (rule findCommonAncestor_found(2))
  with behind have 1: "targetCommit \<in> set (chain (heap s) targetHead)" by simp
  from behind have "targetCommit < length (heap s)" by (auto dest: chain_bound)
  then have 2: "targetCommit \<in> set (chain (heap s) targetCommit)"
    using wf by (simp add: chain_self)
  from findCommonAncestor_related[OF wf 2 1] obtain c pathA pathB where
    "findCommonAncestor (heap s) (Some targetCommit, []) (Some targetHead, []) =
       Inr (Some c, pathA, pathB)" by blast
  with paths idx show ?thesis by (simp add: rebaseBranch_def)
qed

theorem target_commit_behind_ancestor_witness:
  "wellFormed (heap cancelOut) \<and> (4 :: nat) < length (heap cancelOut) \<and>
   (2 :: nat) < length (heap cancelOut) \<and>
   findCommonAncestor (heap cancelOut) (Some 4, []) (Some 2, []) = Inr (Some 0, [3, 4], [1, 2]) \<and>
   (0 :: nat) \<notin> set [1, 2] \<and> (0 :: nat) \<in> set (chain (heap cancelOut) 0) \<and>
   rebaseBranch throwingAlgebra cancelOut 4 0 2 =
     (cancelOut, Inr (4, None,
        \<lparr>newBase = 0, deletedSourceCommits = [], newSourceCommits = []\<rparr>))"
proof -
  have len: "(4 :: nat) < length (heap cancelOut)" "(2 :: nat) < length (heap cancelOut)"
    by (simp_all add: cancelOut_def)
  have nf: "(0 :: nat) \<notin> set [1, 2]" by simp
  have bh: "(0 :: nat) \<in> set (chain (heap cancelOut) 0)" by (simp add: cancelOut_chains)
  from target_commit_behind_ancestor [OF cancelOut_wellFormed len cancelOut_paths nf bh,
      of throwingAlgebra]
  show ?thesis using cancelOut_wellFormed len cancelOut_paths nf bh by simp
qed

section \<open>The input commits\<close>

text \<open>
  Claim C9. Whatever \<^verbatim>\<open>rebaseBranch\<close> does, returning a result or passing on an exception
  of the algebra after it has created commits, every commit that was in the store before the
  call is in the store after it, at the same reference and with the same revision,
  session id, change and parent.
\<close>

theorem inputs_untouched:
  assumes "rebaseBranch cr s sourceHead targetCommit targetHead = (s', outcome)"
    and "r < length (heap s)"
  shows "r < length (heap s') \<and> heap s' ! r = heap s ! r"
proof -
  from assms(1) have "prefix (heap s) (heap s')" by (rule rebaseBranch_prefix)
  then obtain ys where "heap s' = heap s @ ys" by (auto simp: prefix_def)
  with assms(2) show ?thesis by (simp add: nth_append)
qed

theorem inputs_untouched_witness:
  "rebaseBranch composeThrows cancelOut 4 2 2 =
     (\<lparr>heap = heap cancelOut @ [commit 3 3 (Some 2)], nextTag = 5\<rparr>, Inl (AlgebraError 3)) \<and>
   (4 :: nat) < length (heap cancelOut) \<and>
   (4 :: nat) < length (heap cancelOut @ [commit 3 3 (Some 2)]) \<and>
   (heap cancelOut @ [commit 3 3 (Some 2)]) ! 4 = heap cancelOut ! 4"
proof -
  have run: "rebaseBranch composeThrows cancelOut 4 2 2 =
     (\<lparr>heap = heap cancelOut @ [commit 3 3 (Some 2)], nextTag = 5\<rparr>, Inl (AlgebraError 3))"
    by (simp add: rebaseBranch_def cancelOut_paths)
       (simp add: cancelOut_def commit_def asTagged_def alloc_def inverseFromCommit_def
          mintRevisionTag_def tagRollbackInverse_def composeThrows_def)
  have len: "(4 :: nat) < length (heap cancelOut)" by (simp add: cancelOut_def)
  from inputs_untouched [OF run len] run len show ?thesis by simp
qed

section \<open>The new base\<close>

text \<open>
  Claim C5, at an input where the code breaks it. The claim holds for every call whose
  target commit is on the target branch (lemma \<open>newBase_on_target_branch\<close>). In the store
  of the cancel-out scenario, take the source head \<open>C\<close> (reference 2), the target head
  \<open>D\<close> (reference 4) and the target commit \<open>B\<close> (reference 1), which is not on the
  target branch \<open>A, B', D\<close>. The assertion with the message
  \<^verbatim>\<open>target commit is not in target branch\<close> only tests that \<open>B\<close> and \<open>D\<close> have a common
  ancestor, so the call returns, and its new base is the root \<open>A\<close> (reference 0), the
  parent of the target commit.
\<close>

theorem newBase_behind_targetCommit:
  "rebaseBranch counterAlgebra cancelOut 2 1 4 =
     (cancelOut, Inr (2, None,
        \<lparr>newBase = 0, deletedSourceCommits = [], newSourceCommits = []\<rparr>)) \<and>
   chain (heap cancelOut) 1 = [1, 0] \<and> chain (heap cancelOut) 4 = [4, 3, 0]"
  by (simp add: rebaseBranch_def findCommonAncestor_def fcaLoop.simps fcaBody_def visit_def
      cancelOut_def commit_def chain.simps)

section \<open>The loop over the source commits\<close>

lemma interleaved_loop:
  "rebaseLoop counterAlgebra {3} interleaved [3, 4] 2 []
     [asTagged (commit 1 1 (Some 0)), asTagged (commit 2 2 (Some 1))] [1, 2] =
   (\<lparr>heap = heap interleaved @ [commit 3 3 (Some 2)], nextTag = 6\<rparr>,
    Inr (5,
      [\<lparr>tRevision = Some 5, tRollbackOf = Some 1, tChange = - 5\<rparr>,
       \<lparr>tRevision = Some 4, tRollbackOf = Some 3, tChange = - 3\<rparr>],
      [asTagged (commit 1 1 (Some 0)), asTagged (commit 2 2 (Some 1)),
       \<lparr>tRevision = Some 3, tRollbackOf = None, tChange = 3\<rparr>],
      [1, 2, 5]))"
  by (simp add: interleaved_def commit_def counterAlgebra_def asTagged_def alloc_def
      inverseFromCommit_def mintRevisionTag_def tagRollbackInverse_def)

lemma interleaved_paths:
  "findCommonAncestor (heap interleaved) (Some 4, []) (Some 2, []) = Inr (Some 0, [3, 4], [1, 2])"
  by (simp add: findCommonAncestor_def fcaLoop.simps fcaBody_def visit_def interleaved_def
      commit_def)

lemma threeSource_wellFormed: "wellFormed (heap threeSource)"
  by (simp add: wellFormed_def threeSource_def commit_def upt_rec)

lemma threeSource_paths:
  "findCommonAncestor (heap threeSource) (Some 5, []) (Some 2, []) =
     Inr (Some 0, [3, 4, 5], [1, 2])"
  by (simp add: findCommonAncestor_def fcaLoop.simps fcaBody_def visit_def threeSource_def
      commit_def)

lemma threeSource_run:
  "rebaseBranch counterAlgebra threeSource 5 2 2 =
      (\<lparr>heap = heap threeSource @ [commit 3 3 (Some 2), commit 4 7 (Some 6)], nextTag = 8\<rparr>,
       Inr (7, Some (- 2), \<lparr>newBase = 2, deletedSourceCommits = [3, 4, 5], newSourceCommits = [1, 2, 6, 7]\<rparr>))"
  by (simp add: rebaseBranch_def threeSource_paths)
     (simp add: threeSource_def commit_def asTagged_def alloc_def inverseFromCommit_def
        mintRevisionTag_def tagRollbackInverse_def counterAlgebra_def insert_Diff_if)

text \<open>
  Claim C2, as the code has it. Take a call of \<^verbatim>\<open>rebaseBranch\<close> that goes through the loop
  over the source commits and returns, and any source commit \<open>r\<close> of the loop, with the
  source commits \<open>pre\<close> before it and \<open>post\<close> after it. The rollback inverse of every
  commit of \<open>pre\<close>, of \<open>r\<close> and of \<open>post\<close> is computed with \<^verbatim>\<open>invert\<close>, tagged with a
  fresh revision, and is in the list of inverses, newest first, whether the commit was
  cancelled out or not: line 219 is outside the \<^verbatim>\<open>if\<close> of line 205. The call creates one
  commit for each source commit whose revision is still in the source set, in order and with
  that revision, and none for a commit that was cancelled out. When \<open>r\<close> is not cancelled
  out, the commit created for it has the revision and session id of \<open>r\<close>, the commit created
  before it (the new base for the first) as parent, and as change the change of \<open>r\<close>
  rebased over the inverses of all the commits of \<open>pre\<close>, newest first, then over what is
  left of the target rebase path, then over the commits created before it. The cumulative
  change is the composition of all the inverses, of what is left of the target rebase path
  and of the created commits.
\<close>

theorem kept_commits_rebased_all_inverted:
  assumes wf: "wellFormed (heap s)"
    and heads: "sourceHead < length (heap s)" "targetHead < length (heap s)"
    and paths: "findCommonAncestor (heap s) (Some sourceHead, []) (Some targetHead, []) =
                  Inr (Some ancestor, sourcePath, targetPath)"
    and found: "targetCommit \<in> set targetPath"
    and scan: "scanTargetPath (heap s) (nat (findIndex (\<lambda>r. r = targetCommit) targetPath))
                 targetPath 0 (set (map (\<lambda>r. revision (heap s ! r)) sourcePath))
                 (nat (findIndex (\<lambda>r. r = targetCommit) targetPath)) = (sourceSet, newBaseIndex)"
    and strip: "stripCommonPrefix (heap s)
                  (min (length sourcePath) (length (take (newBaseIndex + 1) targetPath)))
                  sourcePath (take (newBaseIndex + 1) targetPath) =
                  Inr (sourcePath', targetRebasePath')"
    and loop: "targetRebasePath' \<noteq> []"
    and ret: "rebaseBranch cr s sourceHead targetCommit targetHead =
                (s', Inr (newHead, sourceChange, commits))"
    and split: "sourcePath' = pre @ r # post"
  shows "\<exists>undosPre u undosPost net.
     list_all2 (\<lambda>x v. invert cr (asTagged (heap s ! x)) True = Inr (tChange v) \<and>
                       tRollbackOf v = Some (revision (heap s ! x))) (rev pre) undosPre \<and>
     invert cr (asTagged (heap s ! r)) True = Inr (tChange u) \<and>
     tRollbackOf u = Some (revision (heap s ! r)) \<and>
     list_all2 (\<lambda>x v. invert cr (asTagged (heap s ! x)) True = Inr (tChange v) \<and>
                       tRollbackOf v = Some (revision (heap s ! x))) (rev post) undosPost \<and>
     map tRevision (undosPost @ u # undosPre) =
       map Some (rev [nextTag s..<nextTag s + length sourcePath']) \<and>
     sourceChange = Some net \<and>
     compose cr
       (undosPost @ u # undosPre @
        map (\<lambda>x. asTagged (heap s ! x)) targetRebasePath' @
        map (\<lambda>m. asTagged (heap s' ! m)) [length (heap s)..<length (heap s')]) = Inr net \<and>
     newSourceCommits commits =
       take (newBaseIndex + 1) targetPath @ [length (heap s)..<length (heap s')] \<and>
     map (\<lambda>m. revision (heap s' ! m)) [length (heap s)..<length (heap s')] =
       filter (\<lambda>t. t \<in> sourceSet) (map (\<lambda>x. revision (heap s ! x)) sourcePath') \<and>
     (revision (heap s ! r) \<in> sourceSet \<longrightarrow>
        (\<exists>chg.
           rebaseChangeOverChanges cr (change (heap s ! r))
             (undosPre @
              map (\<lambda>x. asTagged (heap s ! x)) targetRebasePath' @
              map (\<lambda>m. asTagged (heap s' ! m))
                [length (heap s)..<
                 length (heap s) +
                 length (filter (\<lambda>x. revision (heap s ! x) \<in> sourceSet) pre)]) = Inr chg \<and>
           heap s' !
             (length (heap s) + length (filter (\<lambda>x. revision (heap s ! x) \<in> sourceSet) pre)) =
             \<lparr>revision = revision (heap s ! r), sessionId = sessionId (heap s ! r),
              change = chg,
              parent = Some (last (targetPath ! newBaseIndex #
                [length (heap s)..<
                 length (heap s) +
                 length (filter (\<lambda>x. revision (heap s ! x) \<in> sourceSet) pre)]))\<rparr>))"
proof -
  from rebaseBranch_returns[OF ret] paths found scan strip loop
  obtain inverses rebasedPath new net where
    run: "rebaseLoop cr sourceSet s sourcePath' (targetPath ! newBaseIndex) []
            (map (\<lambda>r. asTagged (heap s ! r)) targetRebasePath')
            (take (newBaseIndex + 1) targetPath) =
            (s', Inr (newHead, inverses, rebasedPath, new))" and
    comp: "compose cr (inverses @ rebasedPath) = Inr net" and
    change: "sourceChange = Some net" and
    commits: "commits = \<lparr>newBase = targetPath ! newBaseIndex,
                deletedSourceCommits = sourcePath, newSourceCommits = new\<rparr>"
    by auto
  have "set sourcePath \<subseteq> {..<length (heap s)}"
    using wf heads paths by (rule path_in_store(1))
  moreover from stripCommonPrefix_drops[OF strip] obtain k where "sourcePath' = drop k sourcePath"
    by blast
  ultimately have valid: "set sourcePath' \<subseteq> {..<length (heap s)}"
    by (metis order_trans set_drop_subset)
  from rebaseLoop_at[OF run[unfolded split] valid[unfolded split]]
  obtain undosPre u undosPost where
    inv: "inverses = undosPost @ u # undosPre @ []" and
    rest: "list_all2 (\<lambda>x v. invert cr (asTagged (heap s ! x)) True = Inr (tChange v) \<and>
                       tRollbackOf v = Some (revision (heap s ! x))) (rev pre) undosPre"
      "invert cr (asTagged (heap s ! r)) True = Inr (tChange u)"
      "tRollbackOf u = Some (revision (heap s ! r))"
      "list_all2 (\<lambda>x v. invert cr (asTagged (heap s ! x)) True = Inr (tChange v) \<and>
                       tRollbackOf v = Some (revision (heap s ! x))) (rev post) undosPost"
      "revision (heap s ! r) \<in> sourceSet \<longrightarrow>
        (\<exists>chg.
           rebaseChangeOverChanges cr (change (heap s ! r))
             (undosPre @ [] @
              map (\<lambda>x. asTagged (heap s ! x)) targetRebasePath' @
              map (\<lambda>m. asTagged (heap s' ! m))
                [length (heap s)..<
                 length (heap s) +
                 length (filter (\<lambda>x. revision (heap s ! x) \<in> sourceSet) pre)]) = Inr chg \<and>
           heap s' !
             (length (heap s) + length (filter (\<lambda>x. revision (heap s ! x) \<in> sourceSet) pre)) =
             \<lparr>revision = revision (heap s ! r), sessionId = sessionId (heap s ! r),
              change = chg,
              parent = Some (last (targetPath ! newBaseIndex #
                [length (heap s)..<
                 length (heap s) +
                 length (filter (\<lambda>x. revision (heap s ! x) \<in> sourceSet) pre)]))\<rparr>)"
    by blast
  from rebaseLoop_tags[OF run] inv
  have tags: "map tRevision (undosPost @ u # undosPre) =
       map Some (rev [nextTag s..<nextTag s + length sourcePath'])" by auto
  from rebaseLoop_path[OF run]
  have path: "rebasedPath = map (\<lambda>x. asTagged (heap s ! x)) targetRebasePath' @
        map (\<lambda>m. asTagged (heap s' ! m)) [length (heap s)..<length (heap s')]" .
  from rebaseLoop_emits[OF run valid]
  have new: "new = take (newBaseIndex + 1) targetPath @ [length (heap s)..<length (heap s')]"
    and count: "map (\<lambda>m. revision (heap s' ! m)) [length (heap s)..<length (heap s')] =
       filter (\<lambda>t. t \<in> sourceSet) (map (\<lambda>x. revision (heap s ! x)) sourcePath')"
    by auto
  from comp have comp': "compose cr
       (undosPost @ u # undosPre @
        map (\<lambda>x. asTagged (heap s ! x)) targetRebasePath' @
        map (\<lambda>m. asTagged (heap s' ! m)) [length (heap s)..<length (heap s')]) = Inr net"
    by (simp add: inv path)
  from rest(5) have kept: "revision (heap s ! r) \<in> sourceSet \<longrightarrow>
        (\<exists>chg.
           rebaseChangeOverChanges cr (change (heap s ! r))
             (undosPre @
              map (\<lambda>x. asTagged (heap s ! x)) targetRebasePath' @
              map (\<lambda>m. asTagged (heap s' ! m))
                [length (heap s)..<
                 length (heap s) +
                 length (filter (\<lambda>x. revision (heap s ! x) \<in> sourceSet) pre)]) = Inr chg \<and>
           heap s' !
             (length (heap s) + length (filter (\<lambda>x. revision (heap s ! x) \<in> sourceSet) pre)) =
             \<lparr>revision = revision (heap s ! r), sessionId = sessionId (heap s ! r),
              change = chg,
              parent = Some (last (targetPath ! newBaseIndex #
                [length (heap s)..<
                 length (heap s) +
                 length (filter (\<lambda>x. revision (heap s ! x) \<in> sourceSet) pre)]))\<rparr>)"
    by (simp only: append_Nil)
  from rest(1-4) tags change comp' new count kept commits show ?thesis
    by (intro exI[of _ undosPre] exI[of _ u] exI[of _ undosPost] exI[of _ net]) simp
qed

theorem kept_commits_rebased_all_inverted_witness:
  "wellFormed (heap threeSource) \<and>
   (5 :: nat) < length (heap threeSource) \<and>
   (2 :: nat) < length (heap threeSource) \<and>
   findCommonAncestor (heap threeSource) (Some 5, []) (Some 2, []) = Inr (Some 0, [3, 4, 5], [1, 2]) \<and>
   (2 :: nat) \<in> set [1, 2] \<and>
   scanTargetPath (heap threeSource) (nat (findIndex (\<lambda>r. r = 2) [1, 2 :: nat]))
      [1, 2] 0 (set (map (\<lambda>r. revision (heap threeSource ! r)) [3, 4, 5]))
      (nat (findIndex (\<lambda>r. r = 2) [1, 2 :: nat])) = ({3, 4}, 1) \<and>
   stripCommonPrefix (heap threeSource)
      (min (length [3, 4, 5 :: nat]) (length (take (1 + 1) [1, 2 :: nat])))
      [3, 4, 5] (take (1 + 1) [1, 2]) = Inr ([3, 4, 5], [1, 2]) \<and>
   [1, 2 :: nat] \<noteq> [] \<and>
   rebaseBranch counterAlgebra threeSource 5 2 2 =
      (\<lparr>heap = heap threeSource @ [commit 3 3 (Some 2), commit 4 7 (Some 6)], nextTag = 8\<rparr>,
       Inr (7, Some (- 2), \<lparr>newBase = 2, deletedSourceCommits = [3, 4, 5], newSourceCommits = [1, 2, 6, 7]\<rparr>)) \<and>
   [3, 4, 5 :: nat] = [3, 4] @ 5 # [] \<and>
   revision (heap threeSource ! 5) \<in> ({3, 4} :: nat set) \<and>
   (\<exists>undosPre u undosPost net.
     list_all2 (\<lambda>x v. invert counterAlgebra (asTagged (heap threeSource ! x)) True = Inr (tChange v) \<and>
                       tRollbackOf v = Some (revision (heap threeSource ! x))) (rev [3, 4]) undosPre \<and>
     invert counterAlgebra (asTagged (heap threeSource ! 5)) True = Inr (tChange u) \<and>
     tRollbackOf u = Some (revision (heap threeSource ! 5)) \<and>
     list_all2 (\<lambda>x v. invert counterAlgebra (asTagged (heap threeSource ! x)) True = Inr (tChange v) \<and>
                       tRollbackOf v = Some (revision (heap threeSource ! x))) (rev []) undosPost \<and>
     map tRevision (undosPost @ u # undosPre) =
       map Some (rev [nextTag threeSource..<nextTag threeSource + length [3, 4, 5 :: nat]]) \<and>
     Some (- 2) = Some net \<and>
     compose counterAlgebra
       (undosPost @ u # undosPre @
        map (\<lambda>x. asTagged (heap threeSource ! x)) [1, 2] @
        map (\<lambda>m. asTagged (heap \<lparr>heap = heap threeSource @ [commit 3 3 (Some 2), commit 4 7 (Some 6)], nextTag = 8\<rparr> ! m))
          [length (heap threeSource)..<length (heap \<lparr>heap = heap threeSource @ [commit 3 3 (Some 2), commit 4 7 (Some 6)], nextTag = 8\<rparr>)]) = Inr net \<and>
     newSourceCommits \<lparr>newBase = 2, deletedSourceCommits = [3, 4, 5], newSourceCommits = [1, 2, 6, 7]\<rparr> =
       take (1 + 1) [1, 2] @ [length (heap threeSource)..<length (heap \<lparr>heap = heap threeSource @ [commit 3 3 (Some 2), commit 4 7 (Some 6)], nextTag = 8\<rparr>)] \<and>
     map (\<lambda>m. revision (heap \<lparr>heap = heap threeSource @ [commit 3 3 (Some 2), commit 4 7 (Some 6)], nextTag = 8\<rparr> ! m))
       [length (heap threeSource)..<length (heap \<lparr>heap = heap threeSource @ [commit 3 3 (Some 2), commit 4 7 (Some 6)], nextTag = 8\<rparr>)] =
       filter (\<lambda>t. t \<in> {3, 4}) (map (\<lambda>x. revision (heap threeSource ! x)) [3, 4, 5]) \<and>
     (revision (heap threeSource ! 5) \<in> {3, 4} \<longrightarrow>
        (\<exists>chg.
           rebaseChangeOverChanges counterAlgebra (change (heap threeSource ! 5))
             (undosPre @
              map (\<lambda>x. asTagged (heap threeSource ! x)) [1, 2] @
              map (\<lambda>m. asTagged (heap \<lparr>heap = heap threeSource @ [commit 3 3 (Some 2), commit 4 7 (Some 6)], nextTag = 8\<rparr> ! m))
                [length (heap threeSource)..<
                 length (heap threeSource) + length (filter (\<lambda>x. revision (heap threeSource ! x) \<in> {3, 4}) [3, 4])]) = Inr chg \<and>
           heap \<lparr>heap = heap threeSource @ [commit 3 3 (Some 2), commit 4 7 (Some 6)], nextTag = 8\<rparr> !
             (length (heap threeSource) + length (filter (\<lambda>x. revision (heap threeSource ! x) \<in> {3, 4}) [3, 4])) =
             \<lparr>revision = revision (heap threeSource ! 5), sessionId = sessionId (heap threeSource ! 5),
              change = chg,
              parent = Some (last ([1, 2] ! 1 #
                [length (heap threeSource)..<
                 length (heap threeSource) + length (filter (\<lambda>x. revision (heap threeSource ! x) \<in> {3, 4}) [3, 4])]))\<rparr>)))"
proof -
  have heads: "(5 :: nat) < length (heap threeSource)" "(2 :: nat) < length (heap threeSource)"
    by (simp_all add: threeSource_def)
  have found: "(2 :: nat) \<in> set [1, 2]" by simp
  have scan: "scanTargetPath (heap threeSource) (nat (findIndex (\<lambda>r. r = 2) [1, 2 :: nat]))
      [1, 2] 0 (set (map (\<lambda>r. revision (heap threeSource ! r)) [3, 4, 5]))
      (nat (findIndex (\<lambda>r. r = 2) [1, 2 :: nat])) = ({3, 4}, 1)"
    by (simp add: threeSource_def commit_def insert_Diff_if insert_commute)
  have strip: "stripCommonPrefix (heap threeSource)
      (min (length [3, 4, 5 :: nat]) (length (take (1 + 1) [1, 2 :: nat])))
      [3, 4, 5] (take (1 + 1) [1, 2]) = Inr ([3, 4, 5], [1, 2])"
    by (simp add: threeSource_def commit_def)
  have loop: "[1, 2 :: nat] \<noteq> []" by simp
  have split: "[3, 4, 5 :: nat] = [3, 4] @ 5 # []" by simp
  have kept: "revision (heap threeSource ! 5) \<in> ({3, 4} :: nat set)"
    by (simp add: threeSource_def commit_def)
  from kept_commits_rebased_all_inverted [OF threeSource_wellFormed heads threeSource_paths
      found scan strip loop threeSource_run split]
    threeSource_wellFormed heads threeSource_paths found scan strip loop threeSource_run
    split kept
  show ?thesis by blast
qed

text \<open>
  The claim as stated fails in the store \<open>interleaved\<close>: the revision of \<open>B'\<close>
  (reference 4) is removed from the source set by the scan, no commit is created for it,
  and yet its rollback inverse, with change \<open>-5\<close>, is the first of the inverses and is
  part of the composed change \<open>-5 - 3 + 1 + 2 + 3 = -2\<close>.
\<close>

theorem cancelled_commit_is_inverted:
  "findCommonAncestor (heap interleaved) (Some 4, []) (Some 2, []) = Inr (Some 0, [3, 4], [1, 2]) \<and>
   scanTargetPath (heap interleaved) 1 [1, 2] 0 {3, 1} 1 = ({3}, 1) \<and>
   revision (heap interleaved ! 4) = 1 \<and>
   rebaseLoop counterAlgebra {3} interleaved [3, 4] 2 []
     [asTagged (commit 1 1 (Some 0)), asTagged (commit 2 2 (Some 1))] [1, 2] =
   (\<lparr>heap = heap interleaved @ [commit 3 3 (Some 2)], nextTag = 6\<rparr>,
    Inr (5,
      [\<lparr>tRevision = Some 5, tRollbackOf = Some 1, tChange = - 5\<rparr>,
       \<lparr>tRevision = Some 4, tRollbackOf = Some 3, tChange = - 3\<rparr>],
      [asTagged (commit 1 1 (Some 0)), asTagged (commit 2 2 (Some 1)),
       \<lparr>tRevision = Some 3, tRollbackOf = None, tChange = 3\<rparr>],
      [1, 2, 5])) \<and>
   rebaseBranch counterAlgebra interleaved 4 2 2 =
   (\<lparr>heap = heap interleaved @ [commit 3 3 (Some 2)], nextTag = 6\<rparr>,
    Inr (5, Some (- 2),
      \<lparr>newBase = 2, deletedSourceCommits = [3, 4], newSourceCommits = [1, 2, 5]\<rparr>))"
proof -
  have scan: "scanTargetPath (heap interleaved) 1 [1, 2] 0 {3, 1} 1 = ({3}, 1)"
    by (simp add: interleaved_def commit_def insert_Diff_if)
  have rev: "revision (heap interleaved ! 4) = 1"
    by (simp add: interleaved_def commit_def)
  have "rebaseBranch counterAlgebra interleaved 4 2 2 =
   (\<lparr>heap = heap interleaved @ [commit 3 3 (Some 2)], nextTag = 6\<rparr>,
    Inr (5, Some (- 2),
      \<lparr>newBase = 2, deletedSourceCommits = [3, 4], newSourceCommits = [1, 2, 5]\<rparr>))"
    by (simp add: rebaseBranch_def interleaved_paths)
       (simp add: interleaved_def commit_def counterAlgebra_def asTagged_def alloc_def
          inverseFromCommit_def mintRevisionTag_def tagRollbackInverse_def insert_Diff_if)
  with interleaved_paths scan rev interleaved_loop show ?thesis by simp
qed

section \<open>The fast path\<close>

lemma cancelOut_fast_paths:
  "findCommonAncestor (heap cancelOut) (Some 4, []) (Some 1, []) = Inr (Some 0, [3, 4], [1])"
  by (simp add: findCommonAncestor_def fcaLoop.simps fcaBody_def visit_def cancelOut_def
      commit_def)

lemma cancelOut_fast_run:
  "rebaseBranch cr cancelOut 4 1 1 =
     (\<lparr>heap = heap cancelOut @ [commit 3 3 (Some 1)], nextTag = 4\<rparr>,
      Inr (5, None, \<lparr>newBase = 1, deletedSourceCommits = [3, 4], newSourceCommits = [1, 5]\<rparr>))"
  by (simp add: rebaseBranch_def findCommonAncestor_def fcaLoop.simps fcaBody_def visit_def
      cancelOut_def commit_def mintCommit_def alloc_def insert_Diff_if)

lemma cancelOut_prefix_paths:
  "findCommonAncestor (heap cancelOut) (Some 3, []) (Some 2, []) = Inr (Some 0, [3], [1, 2])"
  by (simp add: findCommonAncestor_def fcaLoop.simps fcaBody_def visit_def cancelOut_def
      commit_def)

text \<open>
  Claim C3, as the code has it. In a well-formed store, when the target rebase path is, by
  revision and in order, a prefix of the source path (it is then empty after the common
  range has been removed), the call returns whatever the algebra is, also one that throws
  at every call, so \<^verbatim>\<open>rebase\<close>, \<^verbatim>\<open>invert\<close> and \<^verbatim>\<open>compose\<close> are not called. The new
  source commits are the target rebase path followed by one created commit for each
  remaining source commit, in order, with the revision, session id and change of that
  source commit; the first created commit has the new base as parent and each other one
  the created commit before it; the head is the last of the new commits, no cumulative
  change is returned, and the input commits are as before.
\<close>

theorem fast_forward:
  assumes wf: "wellFormed (heap s)"
    and heads: "sourceHead < length (heap s)" "targetHead < length (heap s)"
    and paths: "findCommonAncestor (heap s) (Some sourceHead, []) (Some targetHead, []) =
                  Inr (Some ancestor, sourcePath, targetPath)"
    and found: "targetCommit \<in> set targetPath"
    and scan: "scanTargetPath (heap s) (nat (findIndex (\<lambda>r. r = targetCommit) targetPath))
                 targetPath 0 (set (map (\<lambda>r. revision (heap s ! r)) sourcePath))
                 (nat (findIndex (\<lambda>r. r = targetCommit) targetPath)) = (sourceSet, newBaseIndex)"
    and pre: "prefix (map (\<lambda>r. revision (heap s ! r)) (take (newBaseIndex + 1) targetPath))
                (map (\<lambda>r. revision (heap s ! r)) sourcePath)"
  shows "\<exists>s'.
     rebaseBranch cr s sourceHead targetCommit targetHead =
       (s', Inr (last (take (newBaseIndex + 1) targetPath @ [length (heap s)..<length (heap s')]),
                 None,
                 \<lparr>newBase = targetPath ! newBaseIndex, deletedSourceCommits = sourcePath,
                  newSourceCommits =
                    take (newBaseIndex + 1) targetPath @ [length (heap s)..<length (heap s')]\<rparr>)) \<and>
     list_all2 (\<lambda>c m. revision (heap s' ! m) = revision (heap s ! c) \<and>
                       sessionId (heap s' ! m) = sessionId (heap s ! c) \<and>
                       change (heap s' ! m) = change (heap s ! c))
       (drop (newBaseIndex + 1) sourcePath) [length (heap s)..<length (heap s')] \<and>
     successively (\<lambda>p c. parent (heap s' ! c) = Some p)
       (targetPath ! newBaseIndex # [length (heap s)..<length (heap s')]) \<and>
     prefix (heap s) (heap s') \<and> nextTag s' = nextTag s \<and>
     rebaseBranch cr' s sourceHead targetCommit targetHead =
       rebaseBranch cr s sourceHead targetCommit targetHead"
proof -
  let ?trp = "take (newBaseIndex + 1) targetPath"
  let ?rest = "drop (newBaseIndex + 1) sourcePath"
  have nbi: "newBaseIndex < length targetPath"
    using found scan by (rule newBaseIndex_bounds(2))
  then have len: "length ?trp = newBaseIndex + 1" by simp
  have last: "?trp \<noteq> []" "last ?trp = targetPath ! newBaseIndex"
    using nbi by (simp_all add: take_Suc_conv_app_nth)
  from stripCommonPrefix_prefix[OF pre] len
  have strip: "stripCommonPrefix (heap s) (min (length sourcePath) (length ?trp))
                 sourcePath ?trp = Inr (?rest, [])" by simp
  obtain s' new where rp: "reparent s (targetPath ! newBaseIndex) ?rest ?trp = (s', new)"
    by (cases "reparent s (targetPath ! newBaseIndex) ?rest ?trp") auto
  have run: "rebaseBranch cr s sourceHead targetCommit targetHead =
      (s', Inr (last new, None,
             \<lparr>newBase = targetPath ! newBaseIndex, deletedSourceCommits = sourcePath,
              newSourceCommits = new\<rparr>))" for cr :: "'a ChangeRebaser"
    using rebaseBranch_fast[OF paths found scan strip, of cr] rp by simp
  from reparent_new[OF rp] have
    new: "new = ?trp @ [length (heap s)..<length (heap s')]" and tag: "nextTag s' = nextTag s"
    by auto
  from reparent_new[OF rp] have
    up: "[length (heap s)..<length (heap s) + length ?rest] = [length (heap s)..<length (heap s')]"
    by simp
  have "set sourcePath \<subseteq> {..<length (heap s)}"
    using wf heads paths by (rule path_in_store(1))
  then have sub: "set ?rest \<subseteq> {..<length (heap s)}"
    by (meson order_trans set_drop_subset)
  note copies = reparent_copies[OF rp sub, unfolded up]
  note links = reparent_links[OF rp, unfolded up]
  from links last have links': "successively (\<lambda>p c. parent (heap s' ! c) = Some p)
       (targetPath ! newBaseIndex # [length (heap s)..<length (heap s')])" by simp
  show ?thesis
    using run[of cr] run[of cr'] new copies links' reparent_prefix[OF rp] tag
    by (intro exI[of _ s']) simp
qed

theorem fast_forward_witness:
  "wellFormed (heap cancelOut) \<and>
   (4 :: nat) < length (heap cancelOut) \<and>
   (1 :: nat) < length (heap cancelOut) \<and>
   findCommonAncestor (heap cancelOut) (Some 4, []) (Some 1, []) = Inr (Some 0, [3, 4], [1]) \<and>
   (1 :: nat) \<in> set [1] \<and>
   scanTargetPath (heap cancelOut) (nat (findIndex (\<lambda>r. r = 1) [1 :: nat]))
      [1] 0 (set (map (\<lambda>r. revision (heap cancelOut ! r)) [3, 4]))
      (nat (findIndex (\<lambda>r. r = 1) [1 :: nat])) = ({3}, 0) \<and>
   prefix (map (\<lambda>r. revision (heap cancelOut ! r)) (take (0 + 1) [1]))
      (map (\<lambda>r. revision (heap cancelOut ! r)) [3, 4]) \<and>
   (\<exists>s'.
     rebaseBranch throwingAlgebra cancelOut 4 1 1 =
       (s', Inr (last (take (0 + 1) [1] @ [length (heap cancelOut)..<length (heap s')]),
                 None,
                 \<lparr>newBase = [1] ! 0, deletedSourceCommits = [3, 4],
                  newSourceCommits =
                    take (0 + 1) [1] @ [length (heap cancelOut)..<length (heap s')]\<rparr>)) \<and>
     list_all2 (\<lambda>c m. revision (heap s' ! m) = revision (heap cancelOut ! c) \<and>
                       sessionId (heap s' ! m) = sessionId (heap cancelOut ! c) \<and>
                       change (heap s' ! m) = change (heap cancelOut ! c))
       (drop (0 + 1) [3, 4]) [length (heap cancelOut)..<length (heap s')] \<and>
     successively (\<lambda>p c. parent (heap s' ! c) = Some p)
       ([1] ! 0 # [length (heap cancelOut)..<length (heap s')]) \<and>
     prefix (heap cancelOut) (heap s') \<and> nextTag s' = nextTag cancelOut \<and>
     rebaseBranch counterAlgebra cancelOut 4 1 1 =
       rebaseBranch throwingAlgebra cancelOut 4 1 1) \<and>
   rebaseBranch throwingAlgebra cancelOut 4 1 1 =
     (\<lparr>heap = heap cancelOut @ [commit 3 3 (Some 1)], nextTag = 4\<rparr>,
      Inr (5, None, \<lparr>newBase = 1, deletedSourceCommits = [3, 4], newSourceCommits = [1, 5]\<rparr>))"
proof -
  have heads: "(4 :: nat) < length (heap cancelOut)" "(1 :: nat) < length (heap cancelOut)"
    by (simp_all add: cancelOut_def)
  have found: "(1 :: nat) \<in> set [1]" by simp
  have scan: "scanTargetPath (heap cancelOut) (nat (findIndex (\<lambda>r. r = 1) [1 :: nat]))
      [1] 0 (set (map (\<lambda>r. revision (heap cancelOut ! r)) [3, 4]))
      (nat (findIndex (\<lambda>r. r = 1) [1 :: nat])) = ({3}, 0)"
    by (simp add: cancelOut_def commit_def insert_Diff_if)
  have pre: "prefix (map (\<lambda>r. revision (heap cancelOut ! r)) (take (0 + 1) [1]))
      (map (\<lambda>r. revision (heap cancelOut ! r)) [3, 4])"
    by (simp add: cancelOut_def commit_def)
  from fast_forward [OF cancelOut_wellFormed heads cancelOut_fast_paths found scan pre,
      of throwingAlgebra counterAlgebra]
    cancelOut_wellFormed heads cancelOut_fast_paths found scan pre
    cancelOut_fast_run [of throwingAlgebra]
  show ?thesis by blast
qed

text \<open>
  The claim as stated fails when the source path is a strict prefix of the target rebase
  path. In the cancel-out store the source path \<open>[B']\<close> has the revisions \<open>[1]\<close> and the
  target rebase path \<open>[B, C]\<close> the revisions \<open>[1, 2]\<close>. After \<open>B'\<close> and \<open>B\<close> are
  removed the target rebase path is \<open>[C]\<close>, not empty, so the loop over the (now empty)
  source path runs and \<^verbatim>\<open>compose\<close> is called with \<open>[C]\<close>: an algebra that throws makes
  the call throw, and the counter algebra gives the cumulative change \<open>+2\<close>. The new
  source commits are the target commits \<open>B\<close> and \<open>C\<close>; the change of \<open>B\<close> is not the
  change of \<open>B'\<close>.
\<close>

theorem strict_prefix_calls_compose:
  "findCommonAncestor (heap cancelOut) (Some 3, []) (Some 2, []) = Inr (Some 0, [3], [1, 2]) \<and>
   scanTargetPath (heap cancelOut) 1 [1, 2] 0 {1} 1 = ({}, 1) \<and>
   strict_prefix (map (\<lambda>r. revision (heap cancelOut ! r)) [3])
     (map (\<lambda>r. revision (heap cancelOut ! r)) (take (1 + 1) [1, 2])) \<and>
   rebaseBranch throwingAlgebra cancelOut 3 2 2 = (cancelOut, Inl (AlgebraError 3)) \<and>
   rebaseBranch counterAlgebra cancelOut 3 2 2 =
     (cancelOut,
      Inr (2, Some 2, \<lparr>newBase = 2, deletedSourceCommits = [3], newSourceCommits = [1, 2]\<rparr>)) \<and>
   change (heap cancelOut ! 1) \<noteq> change (heap cancelOut ! 3)"
proof -
  have scan: "scanTargetPath (heap cancelOut) 1 [1, 2] 0 {1} 1 = ({}, 1)"
    by (simp add: cancelOut_def commit_def)
  have pre: "strict_prefix (map (\<lambda>r. revision (heap cancelOut ! r)) [3])
     (map (\<lambda>r. revision (heap cancelOut ! r)) (take (1 + 1) [1, 2]))"
    by (simp add: cancelOut_def commit_def)
  have throws: "rebaseBranch throwingAlgebra cancelOut 3 2 2 = (cancelOut, Inl (AlgebraError 3))"
    by (simp add: rebaseBranch_def cancelOut_prefix_paths)
       (simp add: cancelOut_def commit_def throwingAlgebra_def asTagged_def)
  have counts: "rebaseBranch counterAlgebra cancelOut 3 2 2 =
     (cancelOut,
      Inr (2, Some 2, \<lparr>newBase = 2, deletedSourceCommits = [3], newSourceCommits = [1, 2]\<rparr>))"
    by (simp add: rebaseBranch_def cancelOut_prefix_paths)
       (simp add: cancelOut_def commit_def counterAlgebra_def asTagged_def)
  have payload: "change (heap cancelOut ! 1) \<noteq> change (heap cancelOut ! 3)"
    by (simp add: cancelOut_def commit_def)
  from cancelOut_prefix_paths scan pre throws counts payload show ?thesis by blast
qed

section \<open>The paths without algebra\<close>

text \<open>
  Claim C10. When \<^verbatim>\<open>rebaseBranch\<close> returns because the target commit is not on the target
  path, or because the target rebase path is empty after the common range has been
  removed, the cumulative change it returns is \<^verbatim>\<open>undefined\<close>. In the second case, when
  source commits remain, the returned head is a commit created by the call, not the source
  head that was passed in: the cumulative change alone does not tell the two apart.
\<close>

theorem quiet_paths_report_no_change:
  assumes paths: "findCommonAncestor (heap s) (Some sourceHead, []) (Some targetHead, []) =
                    Inr (Some ancestor, sourcePath, targetPath)"
    and valid: "sourceHead < length (heap s)"
    and ret: "rebaseBranch cr s sourceHead targetCommit targetHead =
                (s', Inr (newHead, sourceChange, commits))"
    and trp: "targetRebasePath =
       take (snd (scanTargetPath (heap s)
                    (nat (findIndex (\<lambda>r. r = targetCommit) targetPath)) targetPath 0
                    (set (map (\<lambda>r. revision (heap s ! r)) sourcePath))
                    (nat (findIndex (\<lambda>r. r = targetCommit) targetPath))) + 1) targetPath"
    and quiet: "targetCommit \<notin> set targetPath \<or>
       stripCommonPrefix (heap s) (min (length sourcePath) (length targetRebasePath))
         sourcePath targetRebasePath = Inr (sourcePath', [])"
  shows "sourceChange = None \<and>
     (targetCommit \<in> set targetPath \<and> sourcePath' \<noteq> [] \<longrightarrow>
        newHead \<noteq> sourceHead \<and> length (heap s) \<le> newHead \<and> newHead < length (heap s'))"
proof (cases "targetCommit \<in> set targetPath")
  case False
  with rebaseBranch_returns[OF ret] paths show ?thesis by auto
next
  case True
  obtain sourceSet newBaseIndex where
    scan: "scanTargetPath (heap s)
                    (nat (findIndex (\<lambda>r. r = targetCommit) targetPath)) targetPath 0
                    (set (map (\<lambda>r. revision (heap s ! r)) sourcePath))
                    (nat (findIndex (\<lambda>r. r = targetCommit) targetPath)) = (sourceSet, newBaseIndex)"
    by (cases "scanTargetPath (heap s)
                    (nat (findIndex (\<lambda>r. r = targetCommit) targetPath)) targetPath 0
                    (set (map (\<lambda>r. revision (heap s ! r)) sourcePath))
                    (nat (findIndex (\<lambda>r. r = targetCommit) targetPath))") auto
  with trp have trp': "targetRebasePath = take (newBaseIndex + 1) targetPath" by simp
  from quiet True trp' have strip: "stripCommonPrefix (heap s)
           (min (length sourcePath) (length (take (newBaseIndex + 1) targetPath)))
           sourcePath (take (newBaseIndex + 1) targetPath) = Inr (sourcePath', [])" by simp
  obtain s1 new where rp: "reparent s (targetPath ! newBaseIndex) sourcePath'
      (take (newBaseIndex + 1) targetPath) = (s1, new)"
    by (cases "reparent s (targetPath ! newBaseIndex) sourcePath'
      (take (newBaseIndex + 1) targetPath)") auto
  from rebaseBranch_fast[OF paths True scan strip, of cr] rp ret
  have res: "s' = s1" "newHead = last new" "sourceChange = None" by auto
  from reparent_new[OF rp] have
    new: "new = take (newBaseIndex + 1) targetPath @
            [length (heap s)..<length (heap s) + length sourcePath']"
    and len: "length (heap s1) = length (heap s) + length sourcePath'" by auto
  have "length (heap s) \<le> last new \<and> last new < length (heap s1)" if "sourcePath' \<noteq> []"
  proof -
    from that have "[length (heap s)..<length (heap s) + length sourcePath'] \<noteq> []" by simp
    then have "last new = last [length (heap s)..<length (heap s) + length sourcePath']"
      by (simp add: new)
    also have "\<dots> = length (heap s) + length sourcePath' - 1"
      using that by (simp add: last_upt)
    finally show ?thesis using len that by (cases sourcePath') auto
  qed
  with res valid show ?thesis by auto
qed

theorem quiet_paths_report_no_change_witness:
  "findCommonAncestor (heap cancelOut) (Some 4, []) (Some 1, []) = Inr (Some 0, [3, 4], [1]) \<and>
   (4 :: nat) < length (heap cancelOut) \<and>
   rebaseBranch counterAlgebra cancelOut 4 1 1 =
     (\<lparr>heap = heap cancelOut @ [commit 3 3 (Some 1)], nextTag = 4\<rparr>,
      Inr (5, None, \<lparr>newBase = 1, deletedSourceCommits = [3, 4], newSourceCommits = [1, 5]\<rparr>)) \<and>
   stripCommonPrefix (heap cancelOut) (min (length [3, 4 :: nat]) (length [1 :: nat])) [3, 4] [1] =
     Inr ([4], []) \<and>
   (1 :: nat) \<in> set [1] \<and> [4 :: nat] \<noteq> [] \<and>
   (5 :: nat) \<noteq> 4 \<and> length (heap cancelOut) \<le> 5 \<and>
   (5 :: nat) < length (heap \<lparr>heap = heap cancelOut @ [commit 3 3 (Some 1)], nextTag = 4\<rparr>)"
proof -
  have valid: "(4 :: nat) < length (heap cancelOut)" by (simp add: cancelOut_def)
  have trp: "[1 :: nat] =
       take (snd (scanTargetPath (heap cancelOut)
                    (nat (findIndex (\<lambda>r. r = 1) [1 :: nat])) [1] 0
                    (set (map (\<lambda>r. revision (heap cancelOut ! r)) [3, 4]))
                    (nat (findIndex (\<lambda>r. r = 1) [1 :: nat]))) + 1) [1]"
    by (simp add: cancelOut_def commit_def)
  have strip: "stripCommonPrefix (heap cancelOut) (min (length [3, 4 :: nat]) (length [1 :: nat]))
      [3, 4] [1] = Inr ([4], [])"
    by (simp add: cancelOut_def commit_def)
  have mem: "(1 :: nat) \<in> set [1]" "[4 :: nat] \<noteq> []" by simp_all
  from quiet_paths_report_no_change [OF cancelOut_fast_paths valid
      cancelOut_fast_run [of counterAlgebra] trp disjI2 [OF strip]] mem
  have "(5 :: nat) \<noteq> 4 \<and> length (heap cancelOut) \<le> 5 \<and>
   (5 :: nat) < length (heap \<lparr>heap = heap cancelOut @ [commit 3 3 (Some 1)], nextTag = 4\<rparr>)"
    by blast
  with cancelOut_fast_paths valid cancelOut_fast_run [of counterAlgebra] strip mem
  show ?thesis by blast
qed

section \<open>The new source commits\<close>

lemma cancelOut_run:
  "rebaseBranch counterAlgebra cancelOut 4 2 2 =
     (\<lparr>heap = heap cancelOut @ [commit 3 3 (Some 2)], nextTag = 5\<rparr>,
      Inr (5, Some 2, \<lparr>newBase = 2, deletedSourceCommits = [3, 4], newSourceCommits = [1, 2, 5]\<rparr>))"
  by (simp add: rebaseBranch_def cancelOut_paths)
     (simp add: cancelOut_def commit_def asTagged_def alloc_def inverseFromCommit_def
        mintRevisionTag_def tagRollbackInverse_def counterAlgebra_def)

text \<open>
  Claim C8, as the code has it. For every call on a well-formed store that returns: every
  commit of \<^verbatim>\<open>newSourceCommits\<close> but the first has the commit before it in the list as
  parent; every commit that the call created (a reference that was not in the store) has
  as parent the created commit before it, or the new base when it is the first one
  created; the returned head is the last commit of the list, or the source head that was
  passed in when the list is empty; and the commits that were in the store are unchanged.
\<close>

theorem new_source_commits_linked:
  assumes wf: "wellFormed (heap s)"
    and heads: "sourceHead < length (heap s)" "targetHead < length (heap s)"
    and ret: "rebaseBranch cr s sourceHead targetCommit targetHead =
                (s', Inr (newHead, sourceChange, commits))"
  shows "successively (\<lambda>p c. parent (heap s' ! c) = Some p) (newSourceCommits commits) \<and>
     successively (\<lambda>p c. parent (heap s' ! c) = Some p)
       (newBase commits # filter (\<lambda>c. length (heap s) \<le> c) (newSourceCommits commits)) \<and>
     newHead = last (sourceHead # newSourceCommits commits) \<and>
     prefix (heap s) (heap s')"
proof -
  from rebaseBranch_returns[OF ret] obtain ancestor sourcePath targetPath where
    paths: "findCommonAncestor (heap s) (Some sourceHead, []) (Some targetHead, []) =
       Inr (Some ancestor, sourcePath, targetPath)" and
    cases: "targetCommit \<notin> set targetPath \<and> s' = s \<and> newHead = sourceHead \<and> sourceChange = None \<and>
        commits = \<lparr>newBase = ancestor, deletedSourceCommits = [], newSourceCommits = []\<rparr>
      \<or> targetCommit \<in> set targetPath \<and>
        (\<exists>sourceSet newBaseIndex sourcePath' targetRebasePath'.
           scanTargetPath (heap s) (nat (findIndex (\<lambda>r. r = targetCommit) targetPath)) targetPath 0
             (set (map (\<lambda>r. revision (heap s ! r)) sourcePath))
             (nat (findIndex (\<lambda>r. r = targetCommit) targetPath)) = (sourceSet, newBaseIndex) \<and>
           stripCommonPrefix (heap s)
             (min (length sourcePath) (length (take (newBaseIndex + 1) targetPath)))
             sourcePath (take (newBaseIndex + 1) targetPath) = Inr (sourcePath', targetRebasePath') \<and>
           (targetRebasePath' = [] \<and> sourceChange = None \<and>
              (\<exists>new. reparent s (targetPath ! newBaseIndex) sourcePath'
                        (take (newBaseIndex + 1) targetPath) = (s', new) \<and>
                 newHead = last new \<and>
                 commits = \<lparr>newBase = targetPath ! newBaseIndex,
                   deletedSourceCommits = sourcePath, newSourceCommits = new\<rparr>)
            \<or> targetRebasePath' \<noteq> [] \<and>
              (\<exists>inverses rebasedPath new c.
                 rebaseLoop cr sourceSet s sourcePath' (targetPath ! newBaseIndex) []
                   (map (\<lambda>r. asTagged (heap s ! r)) targetRebasePath')
                   (take (newBaseIndex + 1) targetPath) =
                   (s', Inr (newHead, inverses, rebasedPath, new)) \<and>
                 compose cr (inverses @ rebasedPath) = Inr c \<and> sourceChange = Some c \<and>
                 commits = \<lparr>newBase = targetPath ! newBaseIndex,
                   deletedSourceCommits = sourcePath, newSourceCommits = new\<rparr>)))"
    by blast
  have old: "set targetPath \<subseteq> {..<length (heap s)}"
    using wf heads paths by (rule path_in_store(2))
  have links: "successively (\<lambda>p c. parent (heap s ! c) = Some p) targetPath"
    using wf heads paths by (rule path_links)
  have grows: "prefix (heap s) (heap s')"
    using ret by (rule rebaseBranch_prefix)
  let ?created = "[length (heap s)..<length (heap s')]"
  have main: ?thesis
    if nbi: "newBaseIndex < length targetPath"
      and new: "newSourceCommits commits = take (newBaseIndex + 1) targetPath @ ?created"
      and base: "newBase commits = targetPath ! newBaseIndex"
      and head: "newHead = last (targetPath ! newBaseIndex # ?created)"
      and created: "successively (\<lambda>p c. parent (heap s' ! c) = Some p)
                      (targetPath ! newBaseIndex # ?created)"
    for newBaseIndex
    using reused_then_created[OF nbi old links grows _ created, where x = sourceHead]
      new base head created grows by simp
  from cases show ?thesis
  proof (elim disjE conjE exE)
    assume "s' = s" "newHead = sourceHead"
      "commits = \<lparr>newBase = ancestor, deletedSourceCommits = [], newSourceCommits = []\<rparr>"
    then show ?thesis by simp
  next
    fix sourceSet newBaseIndex sourcePath' targetRebasePath' new
    assume found: "targetCommit \<in> set targetPath"
      and scan: "scanTargetPath (heap s) (nat (findIndex (\<lambda>r. r = targetCommit) targetPath)) targetPath 0
             (set (map (\<lambda>r. revision (heap s ! r)) sourcePath))
             (nat (findIndex (\<lambda>r. r = targetCommit) targetPath)) = (sourceSet, newBaseIndex)"
      and rp: "reparent s (targetPath ! newBaseIndex) sourcePath'
                        (take (newBaseIndex + 1) targetPath) = (s', new)"
      and head: "newHead = last new"
      and commits: "commits = \<lparr>newBase = targetPath ! newBaseIndex,
                   deletedSourceCommits = sourcePath, newSourceCommits = new\<rparr>"
    have nbi: "newBaseIndex < length targetPath"
      using found scan by (rule newBaseIndex_bounds(2))
    then have ne: "take (newBaseIndex + 1) targetPath \<noteq> []"
      and last: "last (take (newBaseIndex + 1) targetPath) = targetPath ! newBaseIndex"
      by (simp_all add: take_Suc_conv_app_nth)
    from reparent_new[OF rp] have
      new: "new = take (newBaseIndex + 1) targetPath @ ?created"
      and up: "[length (heap s)..<length (heap s) + length sourcePath'] = ?created"
      by simp_all
    from reparent_links[OF rp, unfolded up] ne last
    have created: "successively (\<lambda>p c. parent (heap s' ! c) = Some p)
                      (targetPath ! newBaseIndex # ?created)" by simp
    have "last new = last (targetPath ! newBaseIndex # ?created)"
      using reused_then_created[OF nbi old links grows _ created, where x = sourceHead] ne new
      by simp
    with head have "newHead = last (targetPath ! newBaseIndex # ?created)" by simp
    with nbi new commits created show ?thesis by (intro main[of newBaseIndex]) simp_all
  next
    fix sourceSet newBaseIndex sourcePath' targetRebasePath' inverses rebasedPath new c
    assume found: "targetCommit \<in> set targetPath"
      and scan: "scanTargetPath (heap s) (nat (findIndex (\<lambda>r. r = targetCommit) targetPath)) targetPath 0
             (set (map (\<lambda>r. revision (heap s ! r)) sourcePath))
             (nat (findIndex (\<lambda>r. r = targetCommit) targetPath)) = (sourceSet, newBaseIndex)"
      and loop: "rebaseLoop cr sourceSet s sourcePath' (targetPath ! newBaseIndex) []
                   (map (\<lambda>r. asTagged (heap s ! r)) targetRebasePath')
                   (take (newBaseIndex + 1) targetPath) =
                   (s', Inr (newHead, inverses, rebasedPath, new))"
      and commits: "commits = \<lparr>newBase = targetPath ! newBaseIndex,
                   deletedSourceCommits = sourcePath, newSourceCommits = new\<rparr>"
    have nbi: "newBaseIndex < length targetPath"
      using found scan by (rule newBaseIndex_bounds(2))
    from rebaseLoop_new[OF loop] nbi commits show ?thesis
      by (intro main[of newBaseIndex]) simp_all
  qed
qed

theorem new_source_commits_linked_witness:
  "wellFormed (heap cancelOut) \<and> (4 :: nat) < length (heap cancelOut) \<and>
   (2 :: nat) < length (heap cancelOut) \<and>
   rebaseBranch counterAlgebra cancelOut 4 2 2 =
     (\<lparr>heap = heap cancelOut @ [commit 3 3 (Some 2)], nextTag = 5\<rparr>,
      Inr (5, Some 2, \<lparr>newBase = 2, deletedSourceCommits = [3, 4], newSourceCommits = [1, 2, 5]\<rparr>)) \<and>
   successively (\<lambda>p c. parent (heap \<lparr>heap = heap cancelOut @ [commit 3 3 (Some 2)], nextTag = 5\<rparr> ! c) = Some p)
     (newSourceCommits \<lparr>newBase = 2, deletedSourceCommits = [3, 4], newSourceCommits = [1, 2, 5]\<rparr>) \<and>
   successively (\<lambda>p c. parent (heap \<lparr>heap = heap cancelOut @ [commit 3 3 (Some 2)], nextTag = 5\<rparr> ! c) = Some p)
     (newBase \<lparr>newBase = 2, deletedSourceCommits = [3, 4], newSourceCommits = [1, 2, 5]\<rparr> #
      filter (\<lambda>c. length (heap cancelOut) \<le> c)
        (newSourceCommits \<lparr>newBase = 2, deletedSourceCommits = [3, 4], newSourceCommits = [1, 2, 5]\<rparr>)) \<and>
   (5 :: nat) = last (4 # newSourceCommits \<lparr>newBase = 2, deletedSourceCommits = [3, 4], newSourceCommits = [1, 2, 5]\<rparr>) \<and>
   prefix (heap cancelOut) (heap \<lparr>heap = heap cancelOut @ [commit 3 3 (Some 2)], nextTag = 5\<rparr>)"
proof -
  have heads: "(4 :: nat) < length (heap cancelOut)" "(2 :: nat) < length (heap cancelOut)"
    by (simp_all add: cancelOut_def)
  from new_source_commits_linked [OF cancelOut_wellFormed heads cancelOut_run]
    cancelOut_wellFormed heads cancelOut_run
  show ?thesis by blast
qed

text \<open>
  The claim as stated fails for the first commit of the list, which is a commit of the
  target branch that the list reuses: in the cancel-out scenario the list is
  \<open>[B, C, D']\<close> and the new base is \<open>C\<close>, but the parent of \<open>B\<close> is the root \<open>A\<close>,
  which is neither in the list nor the new base.
\<close>

theorem first_new_commit_parent:
  "rebaseBranch counterAlgebra cancelOut 4 2 2 =
     (\<lparr>heap = heap cancelOut @ [commit 3 3 (Some 2)], nextTag = 5\<rparr>,
      Inr (5, Some 2, \<lparr>newBase = 2, deletedSourceCommits = [3, 4], newSourceCommits = [1, 2, 5]\<rparr>)) \<and>
   parent (heap \<lparr>heap = heap cancelOut @ [commit 3 3 (Some 2)], nextTag = 5\<rparr> ! 1) = Some 0 \<and>
   (0 :: nat) \<noteq> 2 \<and> (0 :: nat) \<notin> set [1, 2, 5]"
proof -
  have "parent (heap \<lparr>heap = heap cancelOut @ [commit 3 3 (Some 2)], nextTag = 5\<rparr> ! 1) = Some 0"
    by (simp add: cancelOut_def commit_def)
  with cancelOut_run show ?thesis by simp
qed

end
